theory Spec2Isabelle
  imports Complex_Main
begin

section \<open>NumPy values, arrays and errors\<close>

text \<open>
  The notebook \<open>1-UnivariateBayes.ipynb\<close> computes one-parameter posteriors on a grid
  with NumPy.  A float64 is modelled with its exponent range and an exact significand: it
  is a real number, \<open>inf\<close>, \<open>-inf\<close> or \<open>nan\<close>, and an operation whose exact result is
  \<open>x\<close> stores \<open>fl x\<close>.  That is an infinity when \<open>x\<close> reaches the overflow threshold
  \<open>(2 - 2^-53) * 2^1023\<close>; below the smallest normal number \<open>2^-1022\<close> it is \<open>x\<close>
  rounded to the subnormal numbers, the multiples of \<open>2^-1074\<close>, ties to even, so that
  a magnitude under \<open>2^-1075\<close> becomes zero; and in between it is \<open>x\<close> itself.  The
  rounding of the 53-bit significand of a normal number and the sign of zero are not
  modelled.  NumPy never raises on a float overflow or division by zero; it warns and
  stores \<open>inf\<close> or \<open>nan\<close>.
\<close>

datatype npfloat = Fin real | PInf | NInf | NaN

text \<open>
  What \<open>asarray\<close> makes of its argument: a 0-d array, a 1-d float64 array, or the 1-d
  int64 array it makes of a list of Python integers.
\<close>

datatype 'a ndarray = Scalar 'a | Vector "'a list" | IntVector "int list"

datatype error = TypeError | IndexError | ValueError | AssertionError | OverflowError

definition overflow_threshold :: real where
  "overflow_threshold = (2 - 1 / 2 ^ 53) * 2 ^ 1023"

definition min_normal :: real where
  "min_normal = 1 / 2 ^ 1022"

text \<open>Rounding to the nearest integer, a tie going to the even neighbour.\<close>

definition rne :: "real \<Rightarrow> int" where
  "rne x =
     (let f = \<lfloor>x\<rfloor>; r = x - of_int f
      in if r < 1 / 2 then f else if 1 / 2 < r then f + 1 else if even f then f else f + 1)"

definition round_subnormal :: "real \<Rightarrow> real" where
  "round_subnormal x = of_int (rne (x * 2 ^ 1074)) / 2 ^ 1074"

definition fl :: "real \<Rightarrow> npfloat" where
  "fl x =
     (if overflow_threshold \<le> x then PInf
      else if x \<le> - overflow_threshold then NInf
      else if \<bar>x\<bar> < min_normal then Fin (round_subnormal x)
      else Fin x)"

text \<open>An exact result that float64 stores unchanged: zero or inside the normal range.\<close>

definition normal :: "real \<Rightarrow> bool" where
  "normal x \<longleftrightarrow> x = 0 \<or> (min_normal \<le> \<bar>x\<bar> \<and> \<bar>x\<bar> < overflow_threshold)"

fun np_add :: "npfloat \<Rightarrow> npfloat \<Rightarrow> npfloat" where
  "np_add (Fin a) (Fin b) = fl (a + b)"
| "np_add NaN _ = NaN"
| "np_add _ NaN = NaN"
| "np_add PInf NInf = NaN"
| "np_add NInf PInf = NaN"
| "np_add PInf _ = PInf"
| "np_add _ PInf = PInf"
| "np_add NInf _ = NInf"
| "np_add _ NInf = NInf"

fun np_mul :: "npfloat \<Rightarrow> npfloat \<Rightarrow> npfloat" where
  "np_mul (Fin a) (Fin b) = fl (a * b)"
| "np_mul NaN _ = NaN"
| "np_mul _ NaN = NaN"
| "np_mul PInf (Fin b) = (if b = 0 then NaN else if 0 < b then PInf else NInf)"
| "np_mul NInf (Fin b) = (if b = 0 then NaN else if 0 < b then NInf else PInf)"
| "np_mul (Fin a) PInf = (if a = 0 then NaN else if 0 < a then PInf else NInf)"
| "np_mul (Fin a) NInf = (if a = 0 then NaN else if 0 < a then NInf else PInf)"
| "np_mul PInf PInf = PInf"
| "np_mul PInf NInf = NInf"
| "np_mul NInf PInf = NInf"
| "np_mul NInf NInf = PInf"

text \<open>True division \<open>/\<close>: a zero divisor gives \<open>nan\<close> for \<open>0/0\<close> and a signed
  infinity otherwise (the zero is taken as \<open>+0.0\<close>).\<close>

fun np_div :: "npfloat \<Rightarrow> npfloat \<Rightarrow> npfloat" where
  "np_div (Fin a) (Fin b) =
     (if b \<noteq> 0 then fl (a / b) else if a = 0 then NaN else if 0 < a then PInf else NInf)"
| "np_div NaN _ = NaN"
| "np_div _ NaN = NaN"
| "np_div (Fin a) PInf = Fin 0"
| "np_div (Fin a) NInf = Fin 0"
| "np_div PInf (Fin b) = (if 0 \<le> b then PInf else NInf)"
| "np_div NInf (Fin b) = (if 0 \<le> b then NInf else PInf)"
| "np_div PInf PInf = NaN"
| "np_div PInf NInf = NaN"
| "np_div NInf PInf = NaN"
| "np_div NInf NInf = NaN"

fun np_neg :: "npfloat \<Rightarrow> npfloat" where
  "np_neg (Fin a) = Fin (- a)"
| "np_neg PInf = NInf"
| "np_neg NInf = PInf"
| "np_neg NaN = NaN"

fun np_exp :: "npfloat \<Rightarrow> npfloat" where
  "np_exp (Fin a) = fl (exp a)"
| "np_exp PInf = PInf"
| "np_exp NInf = Fin 0"
| "np_exp NaN = NaN"

text \<open>\<open>x**n\<close> of a float64 for an integer \<open>n >= 0\<close>.\<close>

fun np_power :: "npfloat \<Rightarrow> nat \<Rightarrow> npfloat" where
  "np_power (Fin a) n = fl (a ^ n)"
| "np_power PInf n = (if n = 0 then Fin 1 else PInf)"
| "np_power NInf n = (if n = 0 then Fin 1 else if even n then PInf else NInf)"
| "np_power NaN n = (if n = 0 then Fin 1 else NaN)"

fun isfinite :: "npfloat \<Rightarrow> bool" where
  "isfinite (Fin a) = True"
| "isfinite _ = False"

fun the_fin :: "npfloat \<Rightarrow> real" where
  "the_fin (Fin a) = a"
| "the_fin _ = 0"

text \<open>
  Storing a float64 into an int64 array converts it as C does: the fraction is dropped,
  and \<open>nan\<close>, an infinity or a value outside the int64 range gives \<open>-2^63\<close> on x86-64.
\<close>

fun int64_cast :: "npfloat \<Rightarrow> int" where
  "int64_cast (Fin v) =
     (if \<bar>v\<bar> < 2 ^ 63 then (if 0 \<le> v then \<lfloor>v\<rfloor> else \<lceil>v\<rceil>) else - (2 ^ 63))"
| "int64_cast _ = - (2 ^ 63)"

text \<open>\<open>sum\<close> and \<open>prod\<close> of a 1-d array, accumulated from the left; the empty array
  gives 0.0 and 1.0.\<close>

definition np_sum :: "npfloat list \<Rightarrow> npfloat" where
  "np_sum ys = foldl np_add (Fin 0) ys"

definition np_prod :: "npfloat list \<Rightarrow> npfloat" where
  "np_prod ys = foldl np_mul (Fin 1) ys"

text \<open>Elementwise \<open>a*b\<close> of two 1-d arrays, with NumPy's broadcasting of a length-1
  operand; other length mismatches raise ValueError.\<close>

definition np_multiply :: "npfloat list \<Rightarrow> npfloat list \<Rightarrow> error + npfloat list" where
  "np_multiply a b =
     (if length a = length b then Inr (map2 np_mul a b)
      else if length a = 1 then Inr (map (np_mul (hd a)) b)
      else if length b = 1 then Inr (map (\<lambda>x. np_mul x (hd b)) a)
      else Inl ValueError)"

section \<open>Quadrature and the posterior cell\<close>

text \<open>
  \<open>np.trapz(y, dx=d)\<close> is \<open>(d * (y[1:] + y[:-1]) / 2.0).sum()\<close>: the composite
  trapezoidal rule with uniform spacing \<open>d\<close>.  Arrays shorter than two give 0.0.
\<close>

definition np_trapz :: "npfloat list \<Rightarrow> npfloat \<Rightarrow> npfloat" where
  "np_trapz y d =
     np_sum (map (\<lambda>(a, b). np_div (np_mul d (np_add a b)) (Fin 2)) (zip (tl y) (butlast y)))"

definition trapz :: "npfloat list \<Rightarrow> real \<Rightarrow> npfloat" where
  "trapz y dx = np_trapz y (Fin dx)"

text \<open>
  \<open>np.trapz(y, x=grid)\<close> is \<open>(diff(grid) * (y[1:] + y[:-1]) / 2.0).sum()\<close>: the
  composite trapezoidal rule over the points of the grid.  The notebook never calls it;
  it is the integral over the grid of a vector aligned to it.
\<close>

definition trapz_grid :: "npfloat list \<Rightarrow> real list \<Rightarrow> error + npfloat" where
  "trapz_grid y x =
     (case np_multiply (map (\<lambda>(a, b). fl (a - b)) (zip (tl x) (butlast x)))
                       (map (\<lambda>(a, b). np_add a b) (zip (tl y) (butlast y))) of
        Inl e \<Rightarrow> Inl e
      | Inr t \<Rightarrow> Inr (np_sum (map (\<lambda>v. np_div v (Fin 2)) t)))"

text \<open>\<open>dr = rvals[1] - rvals[0]\<close>: IndexError on a grid shorter than two.\<close>

definition grid_step :: "real list \<Rightarrow> error + npfloat" where
  "grid_step rvals =
     (if length rvals < 2 then Inl IndexError else Inr (fl (rvals ! 1 - rvals ! 0)))"

text \<open>
  The Bayes's-theorem lines every inference cell repeats (the spec's
  \<open>normalize_posterior\<close>):
  \<^verbatim>\<open>
  dr = rvals[1] - rvals[0]
  numer = prior_pdf*like
  denom = np.trapz(numer, dx=dr)
  post_pdf = numer/denom
  \<close>
\<close>

definition post_pdf :: "real list \<Rightarrow> npfloat list \<Rightarrow> npfloat list \<Rightarrow> error + npfloat list" where
  "post_pdf rvals prior_pdf like =
     (case grid_step rvals of
        Inl e \<Rightarrow> Inl e
      | Inr dr \<Rightarrow>
          (case np_multiply prior_pdf like of
             Inl e \<Rightarrow> Inl e
           | Inr numer \<Rightarrow> Inr (map (\<lambda>y. np_div y (np_trapz numer dr)) numer)))"

section \<open>The validator\<close>

text \<open>
  \<open>numpy.testing.assert_approx_equal(actual, desired, significant)\<close> is library code.
  It returns at once when the two are equal; otherwise it scales both by the power of
  ten at or below their mean magnitude,
  \<open>scale = 10 ** floor(log10(0.5 * (abs(desired) + abs(actual))))\<close>, and raises
  AssertionError when \<open>abs(desired/scale - actual/scale) >= 10 ** -(significant-1)\<close>.
  A \<open>nan\<close> or infinite \<open>actual\<close> against a finite \<open>desired\<close> raises.
\<close>

definition assert_approx_equal :: "npfloat \<Rightarrow> real \<Rightarrow> int \<Rightarrow> error + unit" where
  "assert_approx_equal actual desired significant =
     (case actual of
        Fin a \<Rightarrow>
          if desired = a then Inr ()
          else
            let scale = 10 powr of_int \<lfloor>log 10 (0.5 * (\<bar>desired\<bar> + \<bar>a\<bar>))\<rfloor>;
                sc_desired = desired / scale;
                sc_actual = a / scale
            in if \<bar>sc_desired - sc_actual\<bar> \<ge> 10 powr (- of_int (significant - 1))
               then Inl AssertionError else Inr ()
      | _ \<Rightarrow> Inl AssertionError)"

text \<open>
  \<^verbatim>\<open>
  def test_norm(ppdf, delta):
      assert_approx_equal(np.trapz(ppdf, dx=delta), 1., 2)  # match 1 to 2 digits
  \<close>
  (the spec's \<open>validate_normalization\<close>; its NormalizationError is the AssertionError).
\<close>

definition test_norm :: "npfloat list \<Rightarrow> real \<Rightarrow> error + unit" where
  "test_norm ppdf delta = assert_approx_equal (trapz ppdf delta) 1 2"

section \<open>Grids, priors and likelihoods\<close>

text \<open>
  \<open>linspace(start, stop, num)\<close>: \<open>arange(num) * step + start\<close> with
  \<open>step = (stop - start) / (num - 1)\<close>, the last point then set to \<open>stop\<close>.  The
  result is a float64 array.
\<close>

definition linspace :: "real \<Rightarrow> real \<Rightarrow> nat \<Rightarrow> real list" where
  "linspace start stop num =
     (if 1 < num
      then map (\<lambda>i. real i * ((stop - start) / real (num - 1)) + start) [0..<num - 1] @ [stop]
      else map (\<lambda>i. real i + start) [0..<num])"

text \<open>The bounded flat prior: \<open>prior_pdf = ones_like(rvals)/(prior_u - prior_l)\<close>.\<close>

definition prior_pdf :: "real list \<Rightarrow> real \<Rightarrow> real \<Rightarrow> npfloat list" where
  "prior_pdf rvals prior_l prior_u = map (\<lambda>_. np_div (Fin 1) (fl (prior_u - prior_l))) rvals"

text \<open>
  The exponential prior: \<open>prior = stats.gamma(1, scale=scale)\<close>, \<open>prior.pdf(rvals)\<close>.
  SciPy's gamma density with shape 1 takes \<open>y = x/scale\<close> and gives \<open>exp(-y)/scale\<close>
  for \<open>y >= 0\<close>, zero below the support, and \<open>nan\<close> when the scale is not positive.
\<close>

definition gamma_prior_pdf :: "real \<Rightarrow> real list \<Rightarrow> npfloat list" where
  "gamma_prior_pdf scale rvals =
     map (\<lambda>x. if 0 < scale
               then (case fl (x / scale) of
                       Fin y \<Rightarrow> if 0 \<le> y then np_div (np_exp (Fin (- y))) (Fin scale) else Fin 0
                     | PInf \<Rightarrow> np_div (np_exp NInf) (Fin scale)
                     | _ \<Rightarrow> Fin 0)
               else NaN) rvals"

text \<open>
  The Poisson likelihood of the rate cells, without the \<open>n!\<close> factor:
  \<^verbatim>\<open>
  rtvals = rvals*T
  like = (rtvals)**n * exp(-rtvals)
  \<close>
  The cells build \<open>rvals\<close> with \<open>linspace\<close>, so \<open>rvals\<close> and \<open>rtvals\<close> are float64
  arrays, and \<open>n\<close> is a Python integer.
\<close>

definition poisson_like :: "nat \<Rightarrow> real \<Rightarrow> real list \<Rightarrow> npfloat list" where
  "poisson_like n T rvals =
     (let rtvals = map (\<lambda>r. fl (r * T)) rvals
      in map (\<lambda>rt. np_mul (np_power rt n) (np_exp (np_neg rt))) rtvals)"

text \<open>The exact value that \<open>like\<close> approximates at the rate \<open>r\<close>.\<close>

definition poisson_value :: "nat \<Rightarrow> real \<Rightarrow> real \<Rightarrow> real" where
  "poisson_value n T r = (r * T) ^ n * exp (- (r * T))"

text \<open>
  A rate at which none of the intermediate results \<open>r*T\<close>, \<open>(r*T)**n\<close>,
  \<open>exp(-r*T)\<close> and their product overflows or underflows.
\<close>

definition poisson_in_range :: "nat \<Rightarrow> real \<Rightarrow> real \<Rightarrow> bool" where
  "poisson_in_range n T r \<longleftrightarrow>
     normal (r * T) \<and> normal ((r * T) ^ n) \<and> normal (exp (- (r * T)))
     \<and> normal ((r * T) ^ n * exp (- (r * T)))"

text \<open>
  \<^verbatim>\<open>
  def norm_like(data, muvals, sig):
      muvals = asarray(muvals)
      sig2 = sig*sig
      q = array([sum((data - mu)**2)/sig2 for mu in muvals])
      return exp(-0.5*q)
  \<close>
  Iterating a 0-d array raises \<open>TypeError: iteration over a 0-d array\<close>.  An element
  of an int64 array is converted to float64 by \<open>data - mu\<close>.
\<close>

definition norm_q :: "real list \<Rightarrow> npfloat \<Rightarrow> real \<Rightarrow> npfloat" where
  "norm_q data sig2 mu = np_div (np_sum (map (\<lambda>d. np_power (fl (d - mu)) 2) data)) sig2"

definition norm_like :: "real list \<Rightarrow> real ndarray \<Rightarrow> real \<Rightarrow> error + npfloat ndarray" where
  "norm_like data muvals sig =
     (let sig2 = fl (sig * sig) in
      case muvals of
        Scalar _ \<Rightarrow> Inl TypeError
      | Vector mus \<Rightarrow>
          let q = map (norm_q data sig2) mus
          in Inr (Vector (map (\<lambda>qi. np_exp (np_mul (Fin (- 0.5)) qi)) q))
      | IntVector ks \<Rightarrow>
          let q = map (\<lambda>k. norm_q data sig2 (of_int k)) ks
          in Inr (Vector (map (\<lambda>qi. np_exp (np_mul (Fin (- 0.5)) qi)) q)))"

text \<open>
  \<^verbatim>\<open>
  def cauchy_like(data, x0vals, scale):
      x0vals = asarray(x0vals)  # gives scalars .shape
      scale2 = scale**2
      if len(x0vals.shape) == 0:  # scalar argument -> scalar result
          return prod(1./(1. + (x0vals - data)**2/scale2))
      lvals = empty_like(x0vals)
      for i in range(len(x0vals)):
          lvals[i] = prod(1./(1. + (x0vals[i] - data)**2/scale2))
      return lvals
  \<close>
  \<open>scale\<close> is a Python float, whose \<open>**\<close> raises OverflowError where a NumPy
  operation would store \<open>inf\<close>.  \<open>empty_like\<close> keeps the dtype of \<open>x0vals\<close>: on an
  int64 array every value is converted to an integer when it is stored.
\<close>

definition cauchy_prod :: "real list \<Rightarrow> npfloat \<Rightarrow> real \<Rightarrow> npfloat" where
  "cauchy_prod data scale2 x0 =
     np_prod (map (\<lambda>d. np_div (Fin 1) (np_add (Fin 1) (np_div (np_power (fl (x0 - d)) 2) scale2)))
                  data)"

definition cauchy_like :: "real list \<Rightarrow> real ndarray \<Rightarrow> real \<Rightarrow> error + npfloat ndarray" where
  "cauchy_like data x0vals scale =
     (if overflow_threshold \<le> scale ^ 2 then Inl OverflowError
      else
        let scale2 = fl (scale ^ 2) in
        case x0vals of
          Scalar x0 \<Rightarrow> Inr (Scalar (cauchy_prod data scale2 x0))
        | Vector xs \<Rightarrow> Inr (Vector (map (cauchy_prod data scale2) xs))
        | IntVector ks \<Rightarrow>
            Inr (IntVector (map (\<lambda>k. int64_cast (cauchy_prod data scale2 (of_int k))) ks)))"

section \<open>Specification predicates\<close>

text \<open>A DensityVector on an \<open>N\<close>-point grid: \<open>N\<close> finite, non-negative values.\<close>

definition density_vector :: "nat \<Rightarrow> npfloat list \<Rightarrow> bool" where
  "density_vector N v \<longleftrightarrow> length v = N \<and> list_all (\<lambda>x. isfinite x \<and> 0 \<le> the_fin x) v"

text \<open>The exact trapezoidal sum that \<open>trapz\<close> approximates on finite arrays.\<close>

definition rtrapz :: "real list \<Rightarrow> real \<Rightarrow> real" where
  "rtrapz ys dx = (\<Sum>(a, b)\<leftarrow>zip (tl ys) (butlast ys). dx * (a + b) / 2)"

text \<open>
  A non-negative array whose trapezoidal sum with spacing \<open>dx\<close> stays inside the normal
  range in whatever order the terms are added: every nonzero element, and half its
  product with \<open>dx\<close>, is at least the smallest normal number, and twice the sum of the
  elements, also when multiplied by \<open>dx\<close>, is below the overflow threshold.
\<close>

definition trapz_safe :: "real list \<Rightarrow> real \<Rightarrow> bool" where
  "trapz_safe ys dx \<longleftrightarrow>
     0 < dx
     \<and> list_all (\<lambda>y. 0 \<le> y \<and> (y \<noteq> 0 \<longrightarrow> min_normal \<le> y \<and> 2 * min_normal \<le> dx * y)) ys
     \<and> 2 * sum_list ys < overflow_threshold
     \<and> 2 * dx * sum_list ys < overflow_threshold"

section \<open>Spread of a grid posterior\<close>

text \<open>
  Modelled from the spec: the variance of a posterior on a grid.  The notebook plots
  \<open>post_pdf\<close> and \<open>post_pdf3\<close> and computes no moment of them; the spec compares their
  variances.  The mean and the variance are taken here with the quadrature the notebook
  uses for the normalizing constant, \<open>np.trapz(..., dx=dr)\<close>.
\<close>

definition pdf_mean :: "real list \<Rightarrow> real list \<Rightarrow> real \<Rightarrow> real" where
  "pdf_mean rvals p dr = rtrapz (map2 (*) rvals p) dr"

definition pdf_var :: "real list \<Rightarrow> real list \<Rightarrow> real \<Rightarrow> real" where
  "pdf_var rvals p dr = rtrapz (map2 (\<lambda>r y. (r - pdf_mean rvals p dr) ^ 2 * y) rvals p) dr"

text \<open>The trapezoidal sum over the indices \<open>0, ..., n\<close> of a grid, for unit spacing.\<close>

definition trap_sum :: "nat \<Rightarrow> (nat \<Rightarrow> real) \<Rightarrow> real" where
  "trap_sum n f = (\<Sum>k<n. (f (Suc k) + f k) / 2)"

text \<open>
  On the 200-point rate grid over [0, 20] the first-case likelihood \<open>(n, T) = (16, 2)\<close>
  at the grid point of index \<open>i\<close> is a constant times \<open>peak_ratio i\<close>, its ratio to the
  value at index 80, and the third-case likelihood \<open>(n, T) = (80, 10)\<close> is a constant
  times the fifth power of the same ratio.
\<close>

definition peak_ratio :: "nat \<Rightarrow> real" where
  "peak_ratio i = (real i / 80) ^ 16 * exp (- (40 / 199) * (real i - 80))"

text \<open>
  Integer enclosures of \<open>10^6 * peak_ratio i\<close> for \<open>i = 0, ..., 199\<close>, and their
  checker.  Consecutive ratios satisfy
  \<open>peak_ratio (i+1) * i^16 = peak_ratio i * (i+1)^16 * exp (-40/199)\<close>, and
  \<open>exp (-40/199)\<close> lies between 4089/5000 and 409/500; \<open>step_ok\<close> says that an
  enclosure at one index follows from the enclosure at its neighbour nearer to index 80.
\<close>

definition step_ok :: "int \<Rightarrow> int \<times> int \<Rightarrow> int \<times> int \<Rightarrow> bool" where
  "step_ok k b b' =
     (case (b, b') of ((l, h), (l', h')) \<Rightarrow>
        if 80 \<le> k
        then l' * k ^ 16 * 5000 \<le> l * (k + 1) ^ 16 * 4089 \<and> h * (k + 1) ^ 16 * 409 \<le> h' * k ^ 16 * 500
        else l * (k + 1) ^ 16 * 409 \<le> l' * k ^ 16 * 500 \<and> h' * k ^ 16 * 5000 \<le> h * (k + 1) ^ 16 * 4089)"

fun adjacent :: "(int \<Rightarrow> 'a \<Rightarrow> 'a \<Rightarrow> bool) \<Rightarrow> int \<Rightarrow> 'a list \<Rightarrow> bool" where
  "adjacent P k (x # y # ys) = (P k x y \<and> adjacent P (k + 1) (y # ys))"
| "adjacent P k _ = True"

fun moment_sum :: "(int \<Rightarrow> int \<times> int \<Rightarrow> int) \<Rightarrow> int \<Rightarrow> (int \<times> int) list \<Rightarrow> int" where
  "moment_sum F k (x # y # ys) = F k x + F (k + 1) y + moment_sum F (k + 1) (y # ys)"
| "moment_sum F k _ = 0"

definition ratio_bounds :: "(int \<times> int) list" where
  "ratio_bounds =
    [(0, 0), (0, 1), (0, 1), (0, 1), (0, 1), (0, 1), (0, 1), (0, 1), (0, 1), (0, 1), (0, 1),
     (0, 1), (0, 1), (0, 1), (0, 1), (0, 2), (1, 3), (4, 6), (10, 12), (20, 23), (39, 42),
     (70, 74), (121, 126), (203, 209), (329, 337), (518, 529), (795, 809), (1190, 1210),
     (1743, 1770), (2501, 2537), (3520, 3568), (4867, 4930), (6617, 6700), (8857, 8964),
     (11681, 11819), (15194, 15368), (19507, 19724), (24737, 25004), (31004, 31330), (38430,
     38824), (47136, 47607), (57239, 57796), (68849, 69500), (82066, 82820), (96976, 97842),
     (113652, 114638), (132147, 133260), (152494, 153740), (174703, 176087), (198762,
     200286), (224632, 226297), (252248, 254055), (281522, 283468), (312339, 314420),
     (344561, 346771), (378027, 380358), (412555, 414997), (447945, 450485), (483981,
     486606), (520435, 523129), (557068, 559813), (593635, 596413), (629887, 632679),
     (665577, 668362), (700459, 703217), (734295, 737005), (766855, 769496), (797922,
     800474), (827294, 829736), (854784, 857096), (880224, 882388), (903466, 905464),
     (924383, 926199), (942869, 944489), (958841, 960253), (972239, 973431), (983023,
     983987), (991177, 991906), (996705, 997194), (999632, 999877), (1000000, 1000000),
     (997625, 997870), (992831, 993319), (985712, 986439), (976374, 977334), (964933,
     966119), (951517, 952920), (936260, 937870), (919302, 921109), (900788, 902780),
     (880865, 883030), (859683, 862008), (837391, 839862), (814136, 816739), (790064,
     792785), (765317, 768141), (740032, 742945), (714341, 717329), (688370, 691419),
     (662239, 665336), (636060, 639192), (609940, 613094), (583975, 587140), (558257,
     561420), (532867, 536018), (507880, 511009), (483362, 486460), (459373, 462432),
     (435965, 438977), (413183, 416140), (391064, 393960), (369640, 372469), (348936,
     351694), (328972, 331654), (309762, 312365), (291315, 293835), (273635, 276070),
     (256722, 259071), (240573, 242835), (225181, 227355), (210536, 212622), (196625,
     198623), (183432, 185343), (170941, 172765), (159132, 160870), (147985, 149638),
     (137478, 139048), (127588, 129078), (118292, 119704), (109566, 110902), (101386,
     102649), (93728, 94920), (86568, 87691), (79881, 80938), (73644, 74638), (67834,
     68767), (62427, 63302), (57401, 58221), (52735, 53502), (48408, 49125), (44399, 45068),
     (40689, 41313), (37259, 37840), (34091, 34632), (31168, 31671), (28473, 28941), (25991,
     26426), (23708, 24112), (21609, 21984), (19682, 20029), (17914, 18235), (16293, 16590),
     (14808, 15083), (13449, 13703), (12206, 12441), (11071, 11288), (10035, 10235), (9090,
     9274), (8228, 8398), (7443, 7600), (6729, 6873), (6079, 6212), (5489, 5611), (4953,
     5065), (4466, 4570), (4025, 4121), (3625, 3714), (3263, 3345), (2935, 3011), (2639,
     2709), (2371, 2436), (2129, 2189), (1911, 1966), (1714, 1765), (1537, 1584), (1377,
     1421), (1233, 1274), (1104, 1142), (988, 1023), (883, 916), (789, 820), (705, 733),
     (629, 655), (561, 585), (500, 523), (445, 467), (396, 417), (352, 372), (313, 332),
     (278, 296), (247, 264), (219, 235), (194, 209), (172, 186), (152, 166), (134, 148),
     (118, 132), (104, 118), (92, 105), (81, 94)]"

section \<open>Facts about the float64 range\<close>

lemma min_normal_pos: "0 < min_normal"
  by (simp add: min_normal_def)

lemma overflow_threshold_gt: "2 ^ 1023 \<le> overflow_threshold"
  by (simp add: overflow_threshold_def)

lemma min_normal_le_one: "min_normal \<le> 1"
  by (simp add: min_normal_def)

lemma one_less_overflow: "1 < overflow_threshold"
  by (simp add: overflow_threshold_def)

lemma overflow_threshold_pos: "0 < overflow_threshold"
  using one_less_overflow by linarith

lemma rne_zero: "\<bar>y\<bar> < 1 / 2 \<Longrightarrow> rne y = 0"
proof (cases "0 \<le> y")
  case True
  assume "\<bar>y\<bar> < 1 / 2"
  with True have "\<lfloor>y\<rfloor> = 0" by (simp add: floor_eq_iff)
  with \<open>\<bar>y\<bar> < 1 / 2\<close> True show ?thesis by (simp add: rne_def Let_def)
next
  case False
  assume "\<bar>y\<bar> < 1 / 2"
  with False have "\<lfloor>y\<rfloor> = - 1" by (simp add: floor_eq_iff)
  with \<open>\<bar>y\<bar> < 1 / 2\<close> False show ?thesis by (simp add: rne_def Let_def)
qed

lemma rne_bounds:
  assumes "0 \<le> y"
  shows "0 \<le> rne y" and "of_int (rne y) \<le> y + 1"
proof -
  from assms have f0: "0 \<le> \<lfloor>y\<rfloor>" by simp
  have fl: "of_int \<lfloor>y\<rfloor> \<le> y" by simp
  from f0 show "0 \<le> rne y" by (simp add: rne_def Let_def)
  have "rne y \<le> \<lfloor>y\<rfloor> + 1" by (simp add: rne_def Let_def)
  then have "real_of_int (rne y) \<le> real_of_int (\<lfloor>y\<rfloor> + 1)" by (simp only: of_int_le_iff)
  then have "real_of_int (rne y) \<le> real_of_int \<lfloor>y\<rfloor> + 1" by simp
  with fl show "of_int (rne y) \<le> y + 1" by linarith
qed

lemma round_subnormal_zero: "\<bar>x\<bar> < 1 / 2 ^ 1075 \<Longrightarrow> round_subnormal x = 0"
proof -
  assume a: "\<bar>x\<bar> < 1 / 2 ^ 1075"
  have "\<bar>x * 2 ^ 1074\<bar> = \<bar>x\<bar> * 2 ^ 1074" by (simp add: abs_mult)
  also have "\<dots> < 1 / 2 ^ 1075 * 2 ^ 1074" using a by (intro mult_strict_right_mono) simp_all
  also have "\<dots> = 1 / 2" by simp
  finally have "rne (x * 2 ^ 1074) = 0" by (rule rne_zero)
  then show ?thesis by (simp add: round_subnormal_def)
qed

lemma round_subnormal_nonneg:
  assumes "0 \<le> x"
  shows "0 \<le> round_subnormal x" and "round_subnormal x \<le> x + 1 / 2 ^ 1074"
proof -
  define q :: real where "q = 2 ^ 1074"
  have q: "0 < q" by (simp add: q_def)
  from assms q have "0 \<le> x * q" by simp
  from rne_bounds [OF this] have b: "0 \<le> rne (x * q)" "of_int (rne (x * q)) \<le> x * q + 1" .
  from b(1) q show "0 \<le> round_subnormal x"
    unfolding round_subnormal_def q_def [symmetric] by simp
  from b(2) q have "of_int (rne (x * q)) / q \<le> (x * q + 1) / q"
    by (intro divide_right_mono) simp_all
  also have "\<dots> = x + 1 / q" using q by (simp add: field_simps)
  finally show "round_subnormal x \<le> x + 1 / 2 ^ 1074"
    unfolding round_subnormal_def q_def [symmetric] .
qed

lemma fl_normal: "normal x \<Longrightarrow> fl x = Fin x"
  using overflow_threshold_pos min_normal_pos round_subnormal_zero [of 0]
  by (auto simp: fl_def normal_def)

lemma fl_zero: "fl 0 = Fin 0"
  by (simp add: fl_normal normal_def)

lemma normalI: "min_normal \<le> \<bar>x\<bar> \<Longrightarrow> \<bar>x\<bar> < overflow_threshold \<Longrightarrow> normal x"
  by (simp add: normal_def)

lemma normal_range: "1 / 2 ^ 1022 \<le> \<bar>x\<bar> \<Longrightarrow> \<bar>x\<bar> < 2 ^ 1023 \<Longrightarrow> normal x"
  using overflow_threshold_gt by (simp add: normal_def min_normal_def)

lemma normal_zero: "normal 0"
  by (simp add: normal_def)

lemma normal_minus: "normal (- x) = normal x"
  by (simp add: normal_def)



lemma fl_not_NaN: "fl x \<noteq> NaN"
  by (simp add: fl_def)

lemma fl_nonneg: "0 \<le> x \<Longrightarrow> fl x = PInf \<or> (\<exists>v. fl x = Fin v \<and> 0 \<le> v)"
  using round_subnormal_nonneg(1) [of x] overflow_threshold_pos by (auto simp: fl_def)

lemma fl_nonneg_finite:
  "0 \<le> x \<Longrightarrow> x < overflow_threshold \<Longrightarrow> \<exists>v. fl x = Fin v \<and> 0 \<le> v"
  using round_subnormal_nonneg(1) [of x] overflow_threshold_pos by (auto simp: fl_def)

lemma fl_unit: "0 \<le> x \<Longrightarrow> x \<le> 1 \<Longrightarrow> \<exists>v. fl x = Fin v \<and> 0 \<le> v \<and> v \<le> 1"
proof -
  assume x: "0 \<le> x" "x \<le> 1"
  show ?thesis
  proof (cases "x < min_normal")
    case True
    have "round_subnormal x \<le> x + 1 / 2 ^ 1074" by (rule round_subnormal_nonneg(2) [OF x(1)])
    also have "\<dots> < 1 / 2 ^ 1022 + 1 / 2 ^ 1074" using True by (simp add: min_normal_def)
    also have "\<dots> \<le> 1" by simp
    finally have "round_subnormal x \<le> 1" by simp
    moreover have "fl x = Fin (round_subnormal x)"
      using True x one_less_overflow by (simp add: fl_def)
    ultimately show ?thesis using round_subnormal_nonneg(1) [OF x(1)] by simp
  next
    case False
    then have "fl x = Fin x" using x one_less_overflow by (simp add: fl_def)
    then show ?thesis using x by simp
  qed
qed

section \<open>Facts about finite arrays\<close>

lemma sum_list_divide_const: "(\<Sum>x\<leftarrow>xs. f x / Z) = (\<Sum>x\<leftarrow>xs. f x) / (Z::real)"
  by (induction xs) (simp_all add: add_divide_distrib)

lemma rtrapz_scale: "rtrapz (map (\<lambda>y. y / Z) ys) dx = rtrapz ys dx / Z"
proof -
  have "rtrapz (map (\<lambda>y. y / Z) ys) dx
      = (\<Sum>p\<leftarrow>zip (tl ys) (butlast ys). dx * (fst p / Z + snd p / Z) / 2)"
    by (simp add: rtrapz_def map_tl [symmetric] map_butlast [symmetric] zip_map_map
        case_prod_unfold o_def)
  also have "\<dots> = (\<Sum>p\<leftarrow>zip (tl ys) (butlast ys). (dx * (fst p + snd p) / 2) / Z)"
    by (rule arg_cong [where f = sum_list]) (simp add: add_divide_distrib [symmetric])
  also have "\<dots> = (\<Sum>p\<leftarrow>zip (tl ys) (butlast ys). dx * (fst p + snd p) / 2) / Z"
    by (rule sum_list_divide_const)
  finally show ?thesis by (simp add: rtrapz_def case_prod_unfold)
qed

lemma in_set_tl: "x \<in> set (tl ys) \<Longrightarrow> x \<in> set ys"
  by (cases ys) auto

lemma trapz_pair_mem:
  "(a, b) \<in> set (zip (tl ys) (butlast ys)) \<Longrightarrow> a \<in> set ys \<and> b \<in> set ys"
proof -
  assume "(a, b) \<in> set (zip (tl ys) (butlast ys))"
  then have "a \<in> set (tl ys)" "b \<in> set (butlast ys)"
    by (auto dest: set_zip_leftD set_zip_rightD)
  then show ?thesis by (auto dest: in_set_butlastD in_set_tl)
qed

lemma member_le_sum_list_real:
  fixes xs :: "real list"
  assumes "\<forall>x\<in>set xs. 0 \<le> x" "x \<in> set xs"
  shows "x \<le> sum_list xs"
  using assms
proof (induction xs)
  case Nil
  then show ?case by simp
next
  case (Cons a xs)
  then have nn: "0 \<le> a" "0 \<le> sum_list xs" by (simp_all add: sum_list_nonneg)
  show ?case
  proof (cases "x = a")
    case True
    with nn show ?thesis by simp
  next
    case False
    with Cons have "x \<le> sum_list xs" by simp
    with nn show ?thesis by simp
  qed
qed

lemma sum_list_zip_add:
  fixes f g :: "real \<Rightarrow> real"
  shows "length xs = length ys \<Longrightarrow>
    (\<Sum>p\<leftarrow>zip xs ys. f (fst p) + g (snd p)) = (\<Sum>a\<leftarrow>xs. f a) + (\<Sum>b\<leftarrow>ys. g b)"
  by (induction xs ys rule: list_induct2) simp_all

lemma sum_list_tl_le:
  fixes ys :: "real list"
  shows "\<forall>y\<in>set ys. 0 \<le> y \<Longrightarrow> sum_list (tl ys) \<le> sum_list ys"
  by (cases ys) simp_all

lemma sum_list_butlast_le:
  fixes ys :: "real list"
  shows "\<forall>y\<in>set ys. 0 \<le> y \<Longrightarrow> sum_list (butlast ys) \<le> sum_list ys"
proof (cases "ys = []")
  case True
  then show ?thesis by simp
next
  case False
  assume nn: "\<forall>y\<in>set ys. 0 \<le> y"
  from False have "ys = butlast ys @ [last ys]" by simp
  then have "sum_list ys = sum_list (butlast ys) + last ys"
    by (metis sum_list_append sum_list.Cons sum_list.Nil add.right_neutral)
  moreover have "0 \<le> last ys" using nn False by simp
  ultimately show ?thesis by simp
qed

lemma rtrapz_half_sums:
  "rtrapz ys dx = dx / 2 * (sum_list (tl ys) + sum_list (butlast ys))"
proof -
  have "rtrapz ys dx = (\<Sum>p\<leftarrow>zip (tl ys) (butlast ys). dx / 2 * (fst p + snd p))"
    by (simp add: rtrapz_def case_prod_unfold)
  also have "\<dots> = dx / 2 * (\<Sum>p\<leftarrow>zip (tl ys) (butlast ys). fst p + snd p)"
    by (rule sum_list_const_mult)
  also have "(\<Sum>p\<leftarrow>zip (tl ys) (butlast ys). fst p + snd p)
      = sum_list (tl ys) + sum_list (butlast ys)"
    using sum_list_zip_add [of "tl ys" "butlast ys" "\<lambda>a. a" "\<lambda>b. b"] by simp
  finally show ?thesis .
qed

lemma rtrapz_le:
  assumes "0 \<le> dx" "\<forall>y\<in>set ys. 0 \<le> y"
  shows "rtrapz ys dx \<le> dx * sum_list ys"
proof -
  have "sum_list (tl ys) + sum_list (butlast ys) \<le> 2 * sum_list ys"
    using sum_list_tl_le [OF assms(2)] sum_list_butlast_le [OF assms(2)] by simp
  then have "dx / 2 * (sum_list (tl ys) + sum_list (butlast ys)) \<le> dx / 2 * (2 * sum_list ys)"
    using assms(1) by (intro mult_left_mono) simp_all
  then show ?thesis by (simp add: rtrapz_half_sums)
qed

lemma rtrapz_nonneg:
  assumes "0 \<le> dx" "\<forall>y\<in>set ys. 0 \<le> y"
  shows "0 \<le> rtrapz ys dx"
proof -
  have "0 \<le> sum_list (tl ys)" "0 \<le> sum_list (butlast ys)"
    using assms(2) by (auto intro!: sum_list_nonneg dest: in_set_butlastD in_set_tl)
  then show ?thesis using assms(1) by (simp add: rtrapz_half_sums)
qed

lemma foldl_np_add_exact:
  assumes "\<forall>t\<in>set ts. 0 \<le> t \<and> (t \<noteq> 0 \<longrightarrow> min_normal \<le> t)"
    and "0 \<le> s" "s \<noteq> 0 \<longrightarrow> min_normal \<le> s"
    and "s + sum_list ts < overflow_threshold"
  shows "foldl np_add (Fin s) (map Fin ts) = Fin (s + sum_list ts)"
  using assms
proof (induction ts arbitrary: s)
  case Nil
  then show ?case by simp
next
  case (Cons t ts)
  from Cons.prems have t: "0 \<le> t" "t \<noteq> 0 \<longrightarrow> min_normal \<le> t"
    and rest: "\<forall>t\<in>set ts. 0 \<le> t \<and> (t \<noteq> 0 \<longrightarrow> min_normal \<le> t)" by simp_all
  from rest have nn: "0 \<le> sum_list ts" by (simp add: sum_list_nonneg)
  have st: "0 \<le> s + t" using Cons.prems(2) t(1) by simp
  have low: "s + t \<noteq> 0 \<longrightarrow> min_normal \<le> s + t"
    using Cons.prems(2,3) t by (cases "s = 0") auto
  have up: "s + t < overflow_threshold" using Cons.prems(4) nn by simp
  have "normal (s + t)" using st low up by (auto simp: normal_def)
  then have "np_add (Fin s) (Fin t) = Fin (s + t)" by (simp add: fl_normal)
  moreover have "foldl np_add (Fin (s + t)) (map Fin ts) = Fin (s + t + sum_list ts)"
    using Cons.prems(4) by (intro Cons.IH [OF rest st low]) (simp add: add.assoc)
  ultimately show ?case by (simp add: add.assoc)
qed

lemma trapz_safe_elem:
  assumes "trapz_safe ys dx" "y \<in> set ys"
  shows "0 \<le> y" and "y \<noteq> 0 \<Longrightarrow> min_normal \<le> y" and "y \<noteq> 0 \<Longrightarrow> 2 * min_normal \<le> dx * y"
    and "y \<le> sum_list ys" and "normal y"
proof -
  from assms have a: "0 \<le> y \<and> (y \<noteq> 0 \<longrightarrow> min_normal \<le> y \<and> 2 * min_normal \<le> dx * y)"
    by (auto simp: trapz_safe_def list_all_iff)
  from assms(1) have nn: "\<forall>y\<in>set ys. 0 \<le> y" by (auto simp: trapz_safe_def list_all_iff)
  from a show "0 \<le> y" by simp
  from a show "y \<noteq> 0 \<Longrightarrow> min_normal \<le> y" by simp
  from a show "y \<noteq> 0 \<Longrightarrow> 2 * min_normal \<le> dx * y" by simp
  show le: "y \<le> sum_list ys" by (rule member_le_sum_list_real [OF nn assms(2)])
  have "0 \<le> sum_list ys" using nn by (simp add: sum_list_nonneg)
  moreover from assms(1) have "2 * sum_list ys < overflow_threshold" by (simp add: trapz_safe_def)
  ultimately have "y < overflow_threshold" using le by linarith
  with a show "normal y" by (auto simp: normal_def)
qed

lemma trapz_safe_nonneg: "trapz_safe ys dx \<Longrightarrow> \<forall>y\<in>set ys. 0 \<le> y"
  by (auto simp: trapz_safe_def list_all_iff)

lemma trapz_safe_step: "trapz_safe ys dx \<Longrightarrow> 0 < dx"
  by (simp add: trapz_safe_def)

lemma trapz_term_exact:
  assumes safe: "trapz_safe ys dx" and ab: "(a, b) \<in> set (zip (tl ys) (butlast ys))"
  shows "np_div (np_mul (Fin dx) (np_add (Fin a) (Fin b))) (Fin 2) = Fin (dx * (a + b) / 2)"
    and "0 \<le> dx * (a + b) / 2"
    and "dx * (a + b) / 2 \<noteq> 0 \<longrightarrow> min_normal \<le> dx * (a + b) / 2"
proof -
  from trapz_pair_mem [OF ab] have mem: "a \<in> set ys" "b \<in> set ys" by simp_all
  note ea = trapz_safe_elem [OF safe mem(1)] and eb = trapz_safe_elem [OF safe mem(2)]
  from safe have dx: "0 < dx" and s1: "2 * sum_list ys < overflow_threshold"
    and s2: "2 * dx * sum_list ys < overflow_threshold" by (simp_all add: trapz_safe_def)
  have ab0: "0 \<le> a + b" using ea(1) eb(1) by simp
  have up: "a + b \<le> 2 * sum_list ys" using ea(4) eb(4) by simp
  have up2: "dx * (a + b) \<le> 2 * dx * sum_list ys"
    using mult_left_mono [OF up, of dx] dx by (simp add: mult_ac)
  show pos: "0 \<le> dx * (a + b) / 2" using dx ab0 by simp
  show low: "dx * (a + b) / 2 \<noteq> 0 \<longrightarrow> min_normal \<le> dx * (a + b) / 2"
  proof
    assume "dx * (a + b) / 2 \<noteq> 0"
    then have "a \<noteq> 0 \<or> b \<noteq> 0" by auto
    then have "2 * min_normal \<le> dx * a + dx * b"
    proof
      assume "a \<noteq> 0"
      from ea(3) [OF this] have "2 * min_normal \<le> dx * a" .
      moreover have "0 \<le> dx * b" using dx eb(1) by simp
      ultimately show ?thesis by linarith
    next
      assume "b \<noteq> 0"
      from eb(3) [OF this] have "2 * min_normal \<le> dx * b" .
      moreover have "0 \<le> dx * a" using dx ea(1) by simp
      ultimately show ?thesis by linarith
    qed
    then show "min_normal \<le> dx * (a + b) / 2" by (simp add: distrib_left)
  qed
  have n1: "normal (a + b)"
  proof (cases "a + b = 0")
    case True
    then show ?thesis by (simp add: normal_def)
  next
    case False
    then have "a \<noteq> 0 \<or> b \<noteq> 0" by auto
    then have "min_normal \<le> a + b" using ea(1,2) eb(1,2) by (cases "a = 0") auto
    then show ?thesis using ab0 up s1 by (simp add: normal_def)
  qed
  have n2: "normal (dx * (a + b))"
  proof (cases "dx * (a + b) = 0")
    case True
    then show ?thesis by (simp add: normal_def)
  next
    case False
    then have "dx * (a + b) / 2 \<noteq> 0" by simp
    with low have "min_normal \<le> dx * (a + b) / 2" by simp
    then have "min_normal \<le> dx * (a + b)" using pos by simp
    moreover have "0 \<le> dx * (a + b)" using dx ab0 by simp
    ultimately show ?thesis using up2 s2 by (simp add: normal_def)
  qed
  have n3: "normal (dx * (a + b) / 2)"
  proof (cases "dx * (a + b) / 2 = 0")
    case True
    then show ?thesis by (simp only: normal_zero)
  next
    case False
    with low have "min_normal \<le> dx * (a + b) / 2" by simp
    moreover have "dx * (a + b) / 2 \<le> dx * (a + b)" using dx ab0 by simp
    ultimately show ?thesis using pos up2 s2 by (simp add: normal_def)
  qed
  show "np_div (np_mul (Fin dx) (np_add (Fin a) (Fin b))) (Fin 2) = Fin (dx * (a + b) / 2)"
    by (simp add: fl_normal n1 n2 n3)
qed

lemma trapz_exact:
  assumes safe: "trapz_safe ys dx"
  shows "trapz (map Fin ys) dx = Fin (rtrapz ys dx)"
proof -
  let ?ps = "zip (tl ys) (butlast ys)"
  let ?ts = "map (\<lambda>p. dx * (fst p + snd p) / 2) ?ps"
  have "map (\<lambda>(a, b). np_div (np_mul (Fin dx) (np_add a b)) (Fin 2))
          (zip (tl (map Fin ys)) (butlast (map Fin ys)))
        = map (\<lambda>p. np_div (np_mul (Fin dx) (np_add (Fin (fst p)) (Fin (snd p)))) (Fin 2)) ?ps"
    by (simp add: map_tl [symmetric] map_butlast [symmetric] zip_map_map case_prod_unfold)
  also have "\<dots> = map (\<lambda>p. Fin (dx * (fst p + snd p) / 2)) ?ps"
    by (rule map_cong [OF refl]) (metis trapz_term_exact(1) [OF safe] prod.collapse)
  also have "\<dots> = map Fin ?ts" by simp
  finally have terms: "map (\<lambda>(a, b). np_div (np_mul (Fin dx) (np_add a b)) (Fin 2))
          (zip (tl (map Fin ys)) (butlast (map Fin ys))) = map Fin ?ts" .
  have ts: "\<forall>t\<in>set ?ts. 0 \<le> t \<and> (t \<noteq> 0 \<longrightarrow> min_normal \<le> t)"
  proof
    fix t assume "t \<in> set ?ts"
    then obtain p where p: "p \<in> set ?ps" "t = dx * (fst p + snd p) / 2" by auto
    then have "(fst p, snd p) \<in> set ?ps" by simp
    from trapz_term_exact(2,3) [OF safe this]
    show "0 \<le> t \<and> (t \<noteq> 0 \<longrightarrow> min_normal \<le> t)" unfolding p(2) by blast
  qed
  have sum: "sum_list ?ts = rtrapz ys dx" by (simp add: rtrapz_def case_prod_unfold)
  from safe have dx: "0 < dx" and s2: "2 * dx * sum_list ys < overflow_threshold"
    by (simp_all add: trapz_safe_def)
  have nn: "\<forall>y\<in>set ys. 0 \<le> y" by (rule trapz_safe_nonneg [OF safe])
  have "rtrapz ys dx \<le> dx * sum_list ys" using dx nn by (intro rtrapz_le) simp_all
  moreover have "0 \<le> dx * sum_list ys" using dx nn by (simp add: sum_list_nonneg)
  ultimately have up: "0 + sum_list ?ts < overflow_threshold" using s2 sum by linarith
  have "foldl np_add (Fin 0) (map Fin ?ts) = Fin (0 + sum_list ?ts)"
    by (rule foldl_np_add_exact [OF ts _ _ up]) simp_all
  then show ?thesis
    unfolding trapz_def np_trapz_def np_sum_def terms by (simp add: sum)
qed

lemma trapz_safe_rtrapz:
  assumes safe: "trapz_safe ys dx"
  shows "0 \<le> rtrapz ys dx" and "rtrapz ys dx \<le> dx * sum_list ys"
  using trapz_safe_nonneg [OF safe] trapz_safe_step [OF safe]
  by (simp_all add: rtrapz_nonneg rtrapz_le)

lemma map2_np_mul_exact:
  assumes "\<forall>y\<in>set (map2 (*) ps ls). normal y"
  shows "map2 np_mul (map Fin ps) (map Fin ls) = map Fin (map2 (*) ps ls)"
proof -
  have "map2 np_mul (map Fin ps) (map Fin ls) = map (\<lambda>p. fl (fst p * snd p)) (zip ps ls)"
    by (simp add: zip_map_map case_prod_unfold)
  also have "\<dots> = map (\<lambda>p. Fin (fst p * snd p)) (zip ps ls)"
  proof (rule map_cong [OF refl])
    fix p assume "p \<in> set (zip ps ls)"
    then have "fst p * snd p \<in> set (map2 (*) ps ls)" by (force simp: case_prod_unfold)
    with assms have "normal (fst p * snd p)" by blast
    then show "fl (fst p * snd p) = Fin (fst p * snd p)" by (rule fl_normal)
  qed
  finally show ?thesis by (simp add: case_prod_unfold)
qed

lemma post_pdf_eq:
  assumes "2 \<le> length rvals" "length prior = length rvals" "length like = length rvals"
  shows "post_pdf rvals prior like =
    Inr (map (\<lambda>y. np_div y (np_trapz (map2 np_mul prior like) (fl (rvals ! 1 - rvals ! 0))))
          (map2 np_mul prior like))"
  using assms by (simp add: post_pdf_def grid_step_def np_multiply_def)

lemma post_pdf_exact:
  assumes len: "2 \<le> length rvals" "length ps = length rvals" "length ls = length rvals"
    and dr: "rvals ! 1 - rvals ! 0 = dr" "normal dr"
    and safe: "trapz_safe (map2 (*) ps ls) dr"
    and Z: "Z = rtrapz (map2 (*) ps ls) dr" "0 < Z"
    and q: "\<forall>y\<in>set (map2 (*) ps ls). normal (y / Z)"
  shows "post_pdf rvals (map Fin ps) (map Fin ls)
          = Inr (map Fin (map (\<lambda>y. y / Z) (map2 (*) ps ls)))"
    and "np_trapz (map2 np_mul (map Fin ps) (map Fin ls)) (fl (rvals ! 1 - rvals ! 0)) = Fin Z"
proof -
  let ?ys = "map2 (*) ps ls"
  let ?dr = "rvals ! 1 - rvals ! 0"
  have ny: "\<forall>y\<in>set ?ys. normal y" using trapz_safe_elem(5) [OF safe] by blast
  have numer: "map2 np_mul (map Fin ps) (map Fin ls) = map Fin ?ys"
    by (rule map2_np_mul_exact [OF ny])
  have "trapz (map Fin ?ys) dr = Fin Z"
    unfolding Z(1) by (rule trapz_exact [OF safe])
  then have tz: "np_trapz (map Fin ?ys) (fl ?dr) = Fin Z"
    unfolding dr(1) fl_normal [OF dr(2)] trapz_def .
  show "np_trapz (map2 np_mul (map Fin ps) (map Fin ls)) (fl ?dr) = Fin Z"
    by (simp only: numer tz)
  have "post_pdf rvals (map Fin ps) (map Fin ls)
      = Inr (map (\<lambda>y. np_div y (Fin Z)) (map Fin ?ys))"
    using post_pdf_eq [of rvals "map Fin ps" "map Fin ls"] len
    by (simp only: numer tz length_map)
  also have "map (\<lambda>y. np_div y (Fin Z)) (map Fin ?ys) = map (\<lambda>y. fl (y / Z)) ?ys"
    using Z(2) by (simp add: o_def)
  also have "\<dots> = map (\<lambda>y. Fin (y / Z)) ?ys"
  proof (rule map_cong [OF refl])
    fix y assume "y \<in> set ?ys"
    with q have "normal (y / Z)" by blast
    then show "fl (y / Z) = Fin (y / Z)" by (rule fl_normal)
  qed
  finally show "post_pdf rvals (map Fin ps) (map Fin ls) = Inr (map Fin (map (\<lambda>y. y / Z) ?ys))"
    by (simp add: o_def)
qed

lemma density_vector_map_Fin:
  "density_vector N (map Fin ys) \<longleftrightarrow> length ys = N \<and> (\<forall>y\<in>set ys. 0 \<le> y)"
  by (auto simp: density_vector_def list_all_iff)

section \<open>Arrays whose nonzero values lie between two bounds\<close>

lemma sum_list_le_length:
  fixes ys :: "real list"
  shows "\<forall>y\<in>set ys. y \<le> hi \<Longrightarrow> sum_list ys \<le> real (length ys) * hi"
  by (induction ys) (simp_all add: distrib_right)

lemma trapz_safe_box:
  assumes dx: "0 < dx" and box: "\<forall>y\<in>set ys. y = 0 \<or> (lo \<le> y \<and> y \<le> hi)"
    and lo: "0 < lo" "lo \<le> hi"
    and c1: "min_normal \<le> lo" and c2: "2 * min_normal \<le> dx * lo"
    and c3: "2 * (real (length ys) * hi) < overflow_threshold"
    and c4: "2 * dx * (real (length ys) * hi) < overflow_threshold"
  shows "trapz_safe ys dx"
proof -
  have el: "0 \<le> y \<and> (y \<noteq> 0 \<longrightarrow> min_normal \<le> y \<and> 2 * min_normal \<le> dx * y)"
    if "y \<in> set ys" for y
  proof (cases "y = 0")
    case True
    then show ?thesis by simp
  next
    case False
    with box that have y: "lo \<le> y" by blast
    then have "dx * lo \<le> dx * y" using dx by simp
    with y lo c1 c2 show ?thesis by simp
  qed
  have "\<forall>y\<in>set ys. y \<le> hi" using box lo by force
  then have s: "sum_list ys \<le> real (length ys) * hi" by (rule sum_list_le_length)
  then have "dx * sum_list ys \<le> dx * (real (length ys) * hi)" using dx by simp
  with s c3 c4 have "2 * sum_list ys < overflow_threshold"
    "2 * dx * sum_list ys < overflow_threshold" by simp_all
  with el dx show ?thesis by (simp add: trapz_safe_def list_all_iff)
qed

lemma sum_list_pos_member:
  fixes xs :: "real list"
  assumes "0 < sum_list xs"
  shows "\<exists>x\<in>set xs. 0 < x"
proof (rule ccontr)
  assume "\<not> (\<exists>x\<in>set xs. 0 < x)"
  then have "\<forall>x\<in>set xs. x \<le> 0" by force
  then have "sum_list xs \<le> 0" by (simp add: sum_list_nonpos)
  with assms show False by simp
qed

lemma rtrapz_lower_box:
  assumes dx: "0 < dx" and box: "\<forall>y\<in>set ys. y = 0 \<or> (lo \<le> y \<and> y \<le> hi)"
    and lo: "0 < lo" and Z: "0 < rtrapz ys dx"
  shows "dx * lo / 2 \<le> rtrapz ys dx"
proof -
  let ?ts = "map (\<lambda>p. dx * (fst p + snd p) / 2) (zip (tl ys) (butlast ys))"
  have sum: "sum_list ?ts = rtrapz ys dx" by (simp add: rtrapz_def case_prod_unfold)
  have nn: "0 \<le> y" if "y \<in> set ys" for y using box lo that by force
  have tn: "\<forall>t\<in>set ?ts. 0 \<le> t"
  proof
    fix t assume "t \<in> set ?ts"
    then obtain p where p: "p \<in> set (zip (tl ys) (butlast ys))" "t = dx * (fst p + snd p) / 2"
      by auto
    then have "(fst p, snd p) \<in> set (zip (tl ys) (butlast ys))" by simp
    from trapz_pair_mem [OF this] have "0 \<le> fst p" "0 \<le> snd p" using nn by simp_all
    then show "0 \<le> t" unfolding p(2) using dx by simp
  qed
  from Z sum have "0 < sum_list ?ts" by simp
  from sum_list_pos_member [OF this] obtain t where t: "t \<in> set ?ts" "0 < t" by blast
  then obtain p where p: "p \<in> set (zip (tl ys) (butlast ys))" "t = dx * (fst p + snd p) / 2"
    by auto
  then have "(fst p, snd p) \<in> set (zip (tl ys) (butlast ys))" by simp
  from trapz_pair_mem [OF this] have mem: "fst p \<in> set ys" "snd p \<in> set ys" by simp_all
  have "fst p \<noteq> 0 \<or> snd p \<noteq> 0" using t(2) p(2) by auto
  then have "lo \<le> fst p + snd p"
  proof
    assume "fst p \<noteq> 0"
    with box mem(1) have "lo \<le> fst p" by blast
    with nn [OF mem(2)] show ?thesis by simp
  next
    assume "snd p \<noteq> 0"
    with box mem(2) have "lo \<le> snd p" by blast
    with nn [OF mem(1)] show ?thesis by simp
  qed
  then have "dx * lo \<le> dx * (fst p + snd p)" using dx by simp
  then have "dx * lo / 2 \<le> t" by (simp add: p(2))
  also have "t \<le> sum_list ?ts" by (rule member_le_sum_list_real [OF tn t(1)])
  finally show ?thesis by (simp only: sum)
qed

lemma quotient_normal_box:
  assumes dx: "0 < dx" and box: "\<forall>y\<in>set ys. y = 0 \<or> (lo \<le> y \<and> y \<le> hi)"
    and lo: "0 < lo" "lo \<le> hi"
    and Z: "Z = rtrapz ys dx" "0 < Z"
    and c5: "min_normal * (dx * (real (length ys) * hi)) \<le> lo"
    and c6: "2 * hi < overflow_threshold * (dx * lo)"
    and y: "y \<in> set ys"
  shows "normal (y / Z)"
proof (cases "y = 0")
  case True
  then show ?thesis by (simp add: normal_zero)
next
  case False
  with box y have yb: "lo \<le> y" "y \<le> hi" by blast+
  have nn: "\<forall>y\<in>set ys. 0 \<le> y" using box lo by force
  have "\<forall>y\<in>set ys. y \<le> hi" using box lo by force
  then have "sum_list ys \<le> real (length ys) * hi" by (rule sum_list_le_length)
  then have "dx * sum_list ys \<le> dx * (real (length ys) * hi)" using dx by simp
  moreover have "Z \<le> dx * sum_list ys" unfolding Z(1) using dx nn by (intro rtrapz_le) simp_all
  ultimately have Zu: "Z \<le> dx * (real (length ys) * hi)" by linarith
  have Zl: "dx * lo / 2 \<le> Z" unfolding Z(1) using Z by (intro rtrapz_lower_box [OF dx box lo(1)]) simp
  have "min_normal * Z \<le> min_normal * (dx * (real (length ys) * hi))"
    using Zu min_normal_pos by simp
  with c5 yb(1) have "min_normal * Z \<le> y" by linarith
  then have low: "min_normal \<le> y / Z" using Z(2) by (simp add: pos_le_divide_eq)
  have "2 * y \<le> 2 * hi" using yb(2) by simp
  also have "\<dots> < overflow_threshold * (dx * lo)" by (rule c6)
  also have "\<dots> \<le> overflow_threshold * (2 * Z)"
    using Zl overflow_threshold_pos by (intro mult_left_mono) simp_all
  finally have "y < overflow_threshold * Z" by simp
  then have up: "y / Z < overflow_threshold" using Z(2) by (simp add: pos_divide_less_eq)
  have "0 < y / Z" using yb(1) lo(1) Z(2) by simp
  then have "\<bar>y / Z\<bar> = y / Z" by (rule abs_of_pos)
  with low up show ?thesis by (intro normalI) simp_all
qed

section \<open>The normalized posterior integrates to one on an evenly spaced grid\<close>

lemma diff_even_grid:
  assumes "\<forall>i. Suc i < length x \<longrightarrow> x ! Suc i - x ! i = dr" and "normal dr"
  shows "map (\<lambda>(a, b). fl (a - b)) (zip (tl x) (butlast x)) = replicate (length x - 1) (Fin dr)"
proof (rule nth_equalityI)
  show "length (map (\<lambda>(a, b). fl (a - b)) (zip (tl x) (butlast x)))
      = length (replicate (length x - 1) (Fin dr))" by simp
next
  fix i assume "i < length (map (\<lambda>(a, b). fl (a - b)) (zip (tl x) (butlast x)))"
  then have i: "Suc i < length x" by simp
  then have "zip (tl x) (butlast x) ! i = (x ! Suc i, x ! i)"
    by (simp add: nth_tl nth_butlast)
  moreover have "x ! Suc i - x ! i = dr" using assms(1) i by blast
  ultimately show "map (\<lambda>(a, b). fl (a - b)) (zip (tl x) (butlast x)) ! i
      = replicate (length x - 1) (Fin dr) ! i"
    using i by (simp add: fl_normal [OF assms(2)])
qed

lemma trapz_grid_even:
  assumes len: "length y = length x"
    and even: "\<forall>i. Suc i < length x \<longrightarrow> x ! Suc i - x ! i = dr" and dr: "normal dr"
  shows "trapz_grid y x = Inr (trapz y dr)"
proof -
  let ?s = "map (\<lambda>(a, b). np_add a b) (zip (tl y) (butlast y))"
  have ls: "length ?s = length x - 1" using len by simp
  have "map2 np_mul (replicate (length x - 1) (Fin dr)) ?s = map (np_mul (Fin dr)) ?s"
    by (rule nth_equalityI) (simp_all add: len)
  then have "np_multiply (replicate (length x - 1) (Fin dr)) ?s = Inr (map (np_mul (Fin dr)) ?s)"
    using ls by (simp add: np_multiply_def)
  then have "trapz_grid y x = Inr (np_sum (map (\<lambda>v. np_div v (Fin 2)) (map (np_mul (Fin dr)) ?s)))"
    by (simp add: trapz_grid_def diff_even_grid [OF even dr])
  then show ?thesis
    by (simp add: trapz_def np_trapz_def o_def case_prod_unfold)
qed

text \<open>
  C1 (as amended).  On an evenly spaced grid of at least two points with step \<open>dr\<close>, for
  finite non-negative prior and likelihood vectors aligned to it whose pointwise product
  has a strictly positive integral \<open>Z\<close>, and for which the trapezoidal sums of the product
  and of the product divided by \<open>Z\<close> stay inside the normal float64 range, the posterior
  cell returns the product divided by \<open>Z\<close>, and that vector re-integrates by the composite
  trapezoidal rule over the grid to 1 within 1 percent.
\<close>

theorem post_pdf_integrates_to_one:
  assumes len: "2 \<le> length rvals" "length ps = length rvals" "length ls = length rvals"
    and even: "\<forall>i. Suc i < length rvals \<longrightarrow> rvals ! Suc i - rvals ! i = dr"
    and dr: "normal dr"
    and safe: "trapz_safe (map2 (*) ps ls) dr"
    and Z: "Z = rtrapz (map2 (*) ps ls) dr" "0 < Z"
    and scaled: "trapz_safe (map (\<lambda>y. y / Z) (map2 (*) ps ls)) dr"
  shows "\<exists>p I. post_pdf rvals (map Fin ps) (map Fin ls) = Inr p
            \<and> p = map Fin (map (\<lambda>y. y / Z) (map2 (*) ps ls))
            \<and> length p = length rvals
            \<and> trapz p dr = Fin I
            \<and> trapz_grid p rvals = Inr (Fin I)
            \<and> \<bar>I - 1\<bar> \<le> 1 / 100 * 1"
proof -
  let ?ys = "map2 (*) ps ls"
  let ?p = "map Fin (map (\<lambda>y. y / Z) ?ys)"
  have step: "rvals ! 1 - rvals ! 0 = dr" using even len(1) by simp
  have q: "\<forall>y\<in>set ?ys. normal (y / Z)"
  proof
    fix y assume "y \<in> set ?ys"
    then have "y / Z \<in> (\<lambda>y. y / Z) ` set ?ys" by (rule imageI)
    then have "y / Z \<in> set (map (\<lambda>y. y / Z) ?ys)" by (simp only: set_map)
    then show "normal (y / Z)" by (rule trapz_safe_elem(5) [OF scaled])
  qed
  have post: "post_pdf rvals (map Fin ps) (map Fin ls) = Inr ?p"
    by (rule post_pdf_exact(1) [OF len step dr safe Z q])
  have lp: "length ?p = length rvals" using len by simp
  have "trapz ?p dr = Fin (rtrapz (map (\<lambda>y. y / Z) ?ys) dr)"
    by (rule trapz_exact [OF scaled])
  also have "rtrapz (map (\<lambda>y. y / Z) ?ys) dr = 1"
    using Z by (simp only: rtrapz_scale) simp
  finally have one: "trapz ?p dr = Fin 1" .
  have "trapz_grid ?p rvals = Inr (trapz ?p dr)"
    by (rule trapz_grid_even [OF lp even dr])
  with one have "trapz_grid ?p rvals = Inr (Fin 1)" by simp
  with post lp one show ?thesis by simp
qed

theorem post_pdf_integrates_to_one_witness:
  "\<exists>p I. post_pdf [0, 1 / 2, 1] (map Fin [1, 2, 1]) (map Fin [1, 1, 1]) = Inr p
        \<and> p = map Fin (map (\<lambda>y. y / (3 / 2)) (map2 (*) [1, 2, 1] [1, 1, 1]))
        \<and> length p = length [0, 1 / 2, 1 :: real]
        \<and> trapz p (1 / 2) = Fin I
        \<and> trapz_grid p [0, 1 / 2, 1] = Inr (Fin I)
        \<and> \<bar>I - 1\<bar> \<le> 1 / 100 * 1"
proof -
  have even: "\<forall>i. Suc i < length [0, 1 / 2, 1 :: real]
      \<longrightarrow> [0, 1 / 2, 1 :: real] ! Suc i - [0, 1 / 2, 1] ! i = 1 / 2"
    by (simp add: nth_Cons split: nat.splits)
  have n: "normal (1 / 2)" by (simp add: normal_range)
  have s1: "trapz_safe (map2 (*) [1, 2, 1] [1, 1, 1]) (1 / 2)"
    by (simp add: trapz_safe_def min_normal_def overflow_threshold_def)
  have Z: "3 / 2 = rtrapz (map2 (*) [1, 2, 1] [1, 1, 1]) (1 / 2)"
    by (simp add: rtrapz_def)
  have s2: "trapz_safe (map (\<lambda>y. y / (3 / 2)) (map2 (*) [1, 2, 1] [1, 1, 1])) (1 / 2)"
    by (simp add: trapz_safe_def min_normal_def overflow_threshold_def)
  show ?thesis
    by (rule post_pdf_integrates_to_one [OF _ _ _ even n s1 Z _ s2]) simp_all
qed

text \<open>
  On the strictly increasing grid 0, 2, 3 the cell integrates with the single step
  \<open>rvals[1] - rvals[0] = 2\<close>: the product 1, 3, 1 has \<open>Z = 8\<close> there, and the vector
  returned integrates over the grid to 3/4.
\<close>

theorem post_pdf_uneven_grid:
  "sorted_wrt (<) [0, 2, 3 :: real]
   \<and> np_trapz (map2 np_mul [Fin 1, Fin 1, Fin 1] [Fin 1, Fin 3, Fin 1]) (fl (2 - 0)) = Fin 8
   \<and> post_pdf [0, 2, 3] [Fin 1, Fin 1, Fin 1] [Fin 1, Fin 3, Fin 1]
       = Inr [Fin (1 / 8), Fin (3 / 8), Fin (1 / 8)]
   \<and> trapz_grid [Fin (1 / 8), Fin (3 / 8), Fin (1 / 8)] [0, 2, 3] = Inr (Fin (3 / 4))
   \<and> \<not> \<bar>3 / 4 - 1\<bar> \<le> 1 / 100 * (1 :: real)"
  by (simp add: post_pdf_def grid_step_def np_multiply_def np_trapz_def trapz_grid_def
      np_sum_def fl_zero fl_normal normal_range)

section \<open>The validator's acceptance interval\<close>

lemma floor_log10_small: "1 / 2 \<le> s \<Longrightarrow> s < 1 \<Longrightarrow> \<lfloor>log 10 s\<rfloor> = - 1"
proof -
  assume a: "1 / 2 \<le> s" "s < 1"
  have "log 10 s < 0" using a by simp
  moreover have "- 1 \<le> log 10 s"
  proof -
    have "(10::real) powr (- 1) \<le> s" using a by (simp add: powr_minus_divide)
    then show ?thesis using a by (simp add: le_log_iff)
  qed
  ultimately show ?thesis by (simp add: floor_eq_iff)
qed

lemma floor_log10_unit: "1 \<le> s \<Longrightarrow> s < 10 \<Longrightarrow> \<lfloor>log 10 s\<rfloor> = 0"
proof -
  assume a: "1 \<le> s" "s < 10"
  have "0 \<le> log 10 s" using a by simp
  moreover have "log 10 s < 1" using a by simp
  ultimately show ?thesis by (simp add: floor_eq_iff)
qed

lemma scale_le_mean:
  assumes "10 \<le> (s::real)"
  shows "10 powr of_int \<lfloor>log 10 s\<rfloor> \<le> s"
proof -
  have "10 powr of_int \<lfloor>log 10 s\<rfloor> \<le> 10 powr (log 10 s)"
    by (rule powr_mono) simp_all
  also have "\<dots> = s" using assms by simp
  finally show ?thesis .
qed

lemma assert_approx_equal_one_two:
  "assert_approx_equal (Fin a) 1 2 = Inl AssertionError \<longleftrightarrow> a \<le> 99 / 100 \<or> 11 / 10 \<le> a"
proof -
  let ?s = "0.5 * (\<bar>1\<bar> + \<bar>a\<bar>) :: real"
  consider "a = 1" | "\<bar>a\<bar> < 1" | "a \<noteq> 1" "1 \<le> \<bar>a\<bar>" "\<bar>a\<bar> < 19" | "19 \<le> \<bar>a\<bar>"
    by linarith
  then show ?thesis
  proof cases
    case 1
    then show ?thesis by (simp add: assert_approx_equal_def)
  next
    case 2
    then have "\<lfloor>log 10 ?s\<rfloor> = - 1" by (intro floor_log10_small) simp_all
    moreover have "a \<noteq> 1" using 2 by auto
    ultimately show ?thesis using 2
      by (simp add: assert_approx_equal_def Let_def powr_minus_divide) (auto simp: field_simps abs_if)
  next
    case 3
    then have "\<lfloor>log 10 ?s\<rfloor> = 0" by (intro floor_log10_unit) simp_all
    then show ?thesis using 3
      by (simp add: assert_approx_equal_def Let_def powr_minus_divide) (auto simp: field_simps abs_if)
  next
    case 4
    then have s: "10 \<le> ?s" by simp
    let ?scale = "10 powr of_int \<lfloor>log 10 ?s\<rfloor> :: real"
    have sc: "?scale \<le> ?s" "0 < ?scale" using scale_le_mean [OF s] by simp_all
    have "\<bar>1 - a\<bar> \<ge> ?s / 10" using 4 by (simp add: abs_if split: if_splits)
    with sc have "\<bar>1 - a\<bar> \<ge> ?scale / 10" by linarith
    then have "\<bar>1 / ?scale - a / ?scale\<bar> \<ge> 1 / 10"
      using sc(2) by (simp add: diff_divide_distrib [symmetric] field_simps)
    moreover have "a \<noteq> 1" using 4 by auto
    moreover have "a \<le> 99 / 100 \<or> 11 / 10 \<le> a" using 4 by (simp add: abs_if split: if_splits)
    ultimately show ?thesis
      by (simp add: assert_approx_equal_def Let_def powr_minus_divide)
  qed
qed

lemma assert_approx_equal_cases:
  "assert_approx_equal a d s = Inl AssertionError \<or> assert_approx_equal a d s = Inr ()"
  by (cases a) (simp_all add: assert_approx_equal_def Let_def)

lemma assert_approx_equal_nonfinite:
  "\<not> isfinite a \<Longrightarrow> assert_approx_equal a d s = Inl AssertionError"
  by (cases a) (simp_all add: assert_approx_equal_def)

lemma butlast_replicate_eq: "butlast (replicate n x) = replicate (n - 1) x"
proof (cases n)
  case 0
  then show ?thesis by simp
next
  case (Suc k)
  have "replicate (Suc k) x = replicate k x @ [x]" by (simp add: replicate_append_same)
  then have "butlast (replicate (Suc k) x) = replicate k x" by (simp only: butlast_snoc)
  with Suc show ?thesis by simp
qed

lemma rtrapz_replicate: "rtrapz (replicate n c) dx = real (n - 1) * (dx * c)"
proof -
  have "zip (tl (replicate n c)) (butlast (replicate n c)) = replicate (n - 1) (c, c)"
    by (simp add: butlast_replicate_eq zip_replicate)
  then show ?thesis by (simp add: rtrapz_def sum_list_replicate)
qed

lemma linspace_step: "1 < num \<Longrightarrow> linspace a b (Suc num) ! 1 - linspace a b (Suc num) ! 0 = (b - a) / real num"
  by (simp add: linspace_def nth_append)

text \<open>
  C2 (as amended).  \<open>test_norm\<close> recomputes the trapezoidal integral \<open>I\<close> of the
  vector with the given spacing and raises exactly when \<open>I\<close> is not finite or lies
  outside the open interval from 0.99 to 1.1: the two-digit comparison allows ten percent
  above 1 and one percent below.  The all-ones vector on the 200-point grid over [0, 20]
  integrates to 20 and is rejected.
\<close>

theorem test_norm_raises_iff:
  "(test_norm ppdf delta = Inl AssertionError \<longleftrightarrow>
      (case trapz ppdf delta of Fin I \<Rightarrow> I \<le> 99 / 100 \<or> 11 / 10 \<le> I | _ \<Rightarrow> True))
   \<and> (test_norm ppdf delta = Inr () \<longleftrightarrow>
      (\<exists>I. trapz ppdf delta = Fin I \<and> 99 / 100 < I \<and> I < 11 / 10))
   \<and> trapz (replicate 200 (Fin 1)) (linspace 0 20 200 ! 1 - linspace 0 20 200 ! 0) = Fin 20
   \<and> test_norm (replicate 200 (Fin 1)) (linspace 0 20 200 ! 1 - linspace 0 20 200 ! 0)
       = Inl AssertionError"
proof -
  have raise: "test_norm ppdf delta = Inl AssertionError \<longleftrightarrow>
      (case trapz ppdf delta of Fin I \<Rightarrow> I \<le> 99 / 100 \<or> 11 / 10 \<le> I | _ \<Rightarrow> True)"
    by (cases "trapz ppdf delta")
      (simp_all add: test_norm_def assert_approx_equal_one_two assert_approx_equal_nonfinite)
  have pass: "test_norm ppdf delta = Inr () \<longleftrightarrow>
      (\<exists>I. trapz ppdf delta = Fin I \<and> 99 / 100 < I \<and> I < 11 / 10)"
  proof -
    have "test_norm ppdf delta = Inr () \<longleftrightarrow> test_norm ppdf delta \<noteq> Inl AssertionError"
      using assert_approx_equal_cases [of "trapz ppdf delta" 1 2] by (auto simp: test_norm_def)
    then show ?thesis unfolding raise by (cases "trapz ppdf delta") auto
  qed
  have step: "linspace 0 20 200 ! 1 - linspace 0 20 200 ! 0 = 20 / 199"
    using linspace_step [of 199 0 20] by simp
  have safe: "trapz_safe (replicate 200 1) (20 / 199)"
    by (simp add: trapz_safe_def list_all_iff sum_list_replicate min_normal_def
        overflow_threshold_def)
  have "replicate 200 (Fin 1) = map Fin (replicate 200 1)" by simp
  then have ones: "trapz (replicate 200 (Fin 1)) (20 / 199) = Fin 20"
    by (simp only: trapz_exact [OF safe] rtrapz_replicate) simp
  then have "test_norm (replicate 200 (Fin 1)) (20 / 199) = Inl AssertionError"
    by (simp add: test_norm_def assert_approx_equal_one_two)
  with raise pass ones show ?thesis by (simp only: step)
qed

text \<open>
  Two vectors whose integrals are equally far from 1: the one above passes, the one below
  raises, so no single tolerance on the distance from 1 describes the validator.
\<close>

theorem test_norm_not_a_tolerance:
  "trapz [Fin (17 / 16), Fin (17 / 16)] 1 = Fin (17 / 16)
   \<and> test_norm [Fin (17 / 16), Fin (17 / 16)] 1 = Inr ()
   \<and> trapz [Fin (15 / 16), Fin (15 / 16)] 1 = Fin (15 / 16)
   \<and> test_norm [Fin (15 / 16), Fin (15 / 16)] 1 = Inl AssertionError
   \<and> \<bar>17 / 16 - 1\<bar> = \<bar>15 / 16 - (1::real)\<bar>"
proof -
  have t1: "trapz [Fin (17 / 16), Fin (17 / 16)] 1 = Fin (17 / 16)"
    and t2: "trapz [Fin (15 / 16), Fin (15 / 16)] 1 = Fin (15 / 16)"
    by (simp_all add: trapz_def np_trapz_def np_sum_def fl_normal normal_range)
  have "assert_approx_equal (Fin (17 / 16)) 1 2 \<noteq> Inl AssertionError"
    by (simp add: assert_approx_equal_one_two)
  then have "assert_approx_equal (Fin (17 / 16)) 1 2 = Inr ()"
    using assert_approx_equal_cases [of "Fin (17 / 16)" 1 2] by simp
  moreover have "assert_approx_equal (Fin (15 / 16)) 1 2 = Inl AssertionError"
    by (simp add: assert_approx_equal_one_two)
  ultimately show ?thesis by (simp add: test_norm_def t1 t2)
qed

section \<open>A normalizing constant that is zero or not finite\<close>

lemma np_add_nonfinite: "\<not> isfinite a \<or> \<not> isfinite b \<Longrightarrow> \<not> isfinite (np_add a b)"
  by (cases a; cases b) auto

lemma np_mul_nonfinite: "\<not> isfinite v \<Longrightarrow> \<not> isfinite (np_mul (Fin d) v)"
  by (cases v) auto

lemma np_div_two_nonfinite: "\<not> isfinite v \<Longrightarrow> \<not> isfinite (np_div v (Fin 2))"
  by (cases v) auto

lemma foldl_np_add_nonfinite:
  "\<forall>t\<in>set ts. \<not> isfinite t \<Longrightarrow> ts \<noteq> [] \<or> \<not> isfinite acc \<Longrightarrow> \<not> isfinite (foldl np_add acc ts)"
proof (induction ts arbitrary: acc)
  case Nil
  then show ?case by simp
next
  case (Cons t ts)
  from Cons.prems(1) have "\<not> isfinite (np_add acc t)" by (simp add: np_add_nonfinite)
  then show ?case using Cons.IH [of "np_add acc t"] Cons.prems(1) by simp
qed

lemma trapz_all_nonfinite:
  assumes "2 \<le> length p" "\<forall>v\<in>set p. \<not> isfinite v"
  shows "\<not> isfinite (trapz p dx)"
proof -
  let ?ts = "map (\<lambda>(a, b). np_div (np_mul (Fin dx) (np_add a b)) (Fin 2)) (zip (tl p) (butlast p))"
  have "\<forall>t\<in>set ?ts. \<not> isfinite t"
  proof
    fix t assume "t \<in> set ?ts"
    then obtain a b where ab: "(a, b) \<in> set (zip (tl p) (butlast p))"
      and t: "t = np_div (np_mul (Fin dx) (np_add a b)) (Fin 2)" by auto
    from trapz_pair_mem [OF ab] assms(2) have "\<not> isfinite a" by blast
    then show "\<not> isfinite t"
      unfolding t by (intro np_div_two_nonfinite np_mul_nonfinite np_add_nonfinite) simp
  qed
  moreover have "?ts \<noteq> []" using assms(1) by (cases p; cases "tl p") auto
  ultimately show ?thesis
    unfolding trapz_def np_trapz_def np_sum_def by (intro foldl_np_add_nonfinite) simp_all
qed

lemma foldl_np_add_zero_or_NaN:
  "\<forall>t\<in>set ts. t = Fin 0 \<or> t = NaN \<Longrightarrow> acc = Fin 0 \<or> acc = NaN \<Longrightarrow>
     foldl np_add acc ts = Fin 0 \<or> foldl np_add acc ts = NaN"
proof (induction ts arbitrary: acc)
  case Nil
  then show ?case by simp
next
  case (Cons t ts)
  from Cons.prems have "np_add acc t = Fin 0 \<or> np_add acc t = NaN"
    by (auto simp: fl_zero)
  then show ?case using Cons.IH [of "np_add acc t"] Cons.prems(1) by simp
qed

lemma trapz_zero_or_NaN:
  assumes "\<forall>v\<in>set p. v = Fin 0 \<or> v = NaN"
  shows "trapz p dx = Fin 0 \<or> trapz p dx = NaN"
proof -
  let ?ts = "map (\<lambda>(a, b). np_div (np_mul (Fin dx) (np_add a b)) (Fin 2)) (zip (tl p) (butlast p))"
  have "\<forall>t\<in>set ?ts. t = Fin 0 \<or> t = NaN"
  proof
    fix t assume "t \<in> set ?ts"
    then obtain a b where ab: "(a, b) \<in> set (zip (tl p) (butlast p))"
      and t: "t = np_div (np_mul (Fin dx) (np_add a b)) (Fin 2)" by auto
    from trapz_pair_mem [OF ab] assms have "a = Fin 0 \<or> a = NaN" "b = Fin 0 \<or> b = NaN"
      by blast+
    then show "t = Fin 0 \<or> t = NaN" unfolding t by (auto simp: fl_zero)
  qed
  then show ?thesis
    unfolding trapz_def np_trapz_def np_sum_def by (intro foldl_np_add_zero_or_NaN) simp_all
qed

lemma np_div_zero_nonfinite: "\<not> isfinite (np_div y (Fin 0))"
  by (cases y) auto

lemma np_div_by_NaN: "np_div y NaN = NaN"
  by (cases y) auto

lemma np_div_by_inf: "Z = PInf \<or> Z = NInf \<Longrightarrow> np_div y Z = Fin 0 \<or> np_div y Z = NaN"
  by (cases y) auto

lemma test_norm_zero_or_NaN:
  assumes "\<forall>v\<in>set p. v = Fin 0 \<or> v = NaN"
  shows "test_norm p dx = Inl AssertionError"
  using trapz_zero_or_NaN [OF assms, of dx]
  by (auto simp: test_norm_def assert_approx_equal_one_two assert_approx_equal_nonfinite)

lemma test_norm_all_nonfinite:
  assumes "2 \<le> length p" "\<forall>v\<in>set p. \<not> isfinite v"
  shows "test_norm p dx = Inl AssertionError"
  unfolding test_norm_def
  by (rule assert_approx_equal_nonfinite) (rule trapz_all_nonfinite [OF assms])

text \<open>
  C3 (as amended).  The posterior cell has no check on the normalizing constant \<open>Z\<close>:
  for a grid of at least two points and aligned vectors it raises nothing and returns the
  product divided elementwise by \<open>Z\<close>, whether \<open>Z\<close> is zero, negative, infinite or
  \<open>nan\<close>.  When \<open>Z\<close> is zero or \<open>nan\<close> every returned element is \<open>nan\<close> or infinite.
  Whenever \<open>Z\<close> is zero or not finite, \<open>test_norm\<close> on the result raises, whatever the
  spacing it is given.
\<close>

theorem post_pdf_never_raises:
  assumes len: "2 \<le> length rvals" "length prior = length rvals" "length like = length rvals"
    and Z: "np_trapz (map2 np_mul prior like) (fl (rvals ! 1 - rvals ! 0)) = Z"
  shows "\<exists>p. post_pdf rvals prior like = Inr p \<and> length p = length rvals
           \<and> p = map (\<lambda>y. np_div y Z) (map2 np_mul prior like)
           \<and> (Z = Fin 0 \<or> Z = NaN \<longrightarrow> list_all (\<lambda>x. \<not> isfinite x) p)
           \<and> (Z = Fin 0 \<or> \<not> isfinite Z \<longrightarrow> test_norm p delta = Inl AssertionError)"
proof -
  define numer where "numer = map2 np_mul prior like"
  define p where "p = map (\<lambda>y. np_div y Z) numer"
  have ln: "length numer = length rvals" using len by (simp add: numer_def)
  then have l2: "2 \<le> length p" using len by (simp add: p_def)
  have eq: "post_pdf rvals prior like = Inr p"
    using post_pdf_eq [OF len] Z by (simp add: p_def numer_def)
  have zero: "list_all (\<lambda>x. \<not> isfinite x) p" if "Z = Fin 0 \<or> Z = NaN"
    using that by (auto simp: p_def list_all_iff np_div_zero_nonfinite np_div_by_NaN)
  have bad: "test_norm p delta = Inl AssertionError" if "Z = Fin 0 \<or> \<not> isfinite Z"
  proof (cases "Z = Fin 0 \<or> Z = NaN")
    case True
    from zero [OF this] have "\<forall>v\<in>set p. \<not> isfinite v" by (simp add: list_all_iff)
    then show ?thesis by (rule test_norm_all_nonfinite [OF l2])
  next
    case False
    with that have "Z = PInf \<or> Z = NInf" by (cases Z) auto
    then have "\<forall>v\<in>set p. v = Fin 0 \<or> v = NaN"
      using np_div_by_inf [of Z] by (auto simp: p_def)
    then show ?thesis by (rule test_norm_zero_or_NaN)
  qed
  have "length p = length rvals" using ln by (simp add: p_def)
  with eq zero bad show ?thesis
    unfolding p_def numer_def by blast
qed

theorem post_pdf_never_raises_witness:
  "post_pdf [0, 1] [Fin 1, Fin 1] [Fin 0, Fin 2] = Inr [Fin 0, Fin 2]
   \<and> post_pdf [0, 1] [Fin 1, Fin 1] [Fin 1, Fin (- 1)] = Inr [PInf, NInf]
   \<and> test_norm [PInf, NInf] 1 = Inl AssertionError
   \<and> post_pdf [0, 1] [Fin 1, Fin 1] [Fin 0, Fin (- 2)] = Inr [Fin 0, Fin 2]
   \<and> post_pdf [0, 1] [Fin 1, Fin 1] [PInf, Fin 1] = Inr [NaN, Fin 0]
   \<and> test_norm [NaN, Fin 0] 1 = Inl AssertionError"
  using post_pdf_never_raises [of "[0, 1]" "[Fin 1, Fin 1]" "[Fin 1, Fin (- 1)]" "Fin 0" 1]
    post_pdf_never_raises [of "[0, 1]" "[Fin 1, Fin 1]" "[Fin 0, Fin (- 2)]" "Fin (- 1)" 1]
    post_pdf_never_raises [of "[0, 1]" "[Fin 1, Fin 1]" "[Fin 0, Fin 2]" "Fin 1" 1]
    post_pdf_never_raises [of "[0, 1]" "[Fin 1, Fin 1]" "[PInf, Fin 1]" "PInf" 1]
  by (simp add: np_trapz_def np_sum_def fl_zero fl_normal normal_range)

text \<open>
  A likelihood that is zero at every grid point: \<open>Z\<close> is zero, and the cell returns
  a vector of \<open>nan\<close> instead of raising.
\<close>

theorem post_pdf_zero_likelihood:
  "np_trapz (map2 np_mul [Fin 1, Fin 1] [Fin 0, Fin 0]) (fl (1 - 0)) = Fin 0
   \<and> post_pdf [0, 1] [Fin 1, Fin 1] [Fin 0, Fin 0] = Inr [NaN, NaN]"
  by (simp add: post_pdf_def grid_step_def np_multiply_def np_trapz_def np_sum_def
      fl_zero fl_normal normal_range)

section \<open>The Poisson likelihood\<close>



lemma poisson_elem_exact:
  assumes "poisson_in_range n T r"
  shows "np_mul (np_power (fl (r * T)) n) (np_exp (np_neg (fl (r * T)))) = Fin (poisson_value n T r)"
  using assms by (simp add: poisson_in_range_def poisson_value_def fl_normal)

lemma poisson_like_exact:
  assumes "\<forall>r\<in>set rvals. poisson_in_range n T r"
  shows "poisson_like n T rvals = map Fin (map (poisson_value n T) rvals)"
  using assms by (simp add: poisson_like_def poisson_elem_exact)

lemma exp_nat_le: "exp (real k) \<le> 3 ^ k"
proof -
  have "exp (real k) = exp 1 ^ k" using exp_of_nat_mult [of k "1::real"] by simp
  also have "\<dots> \<le> 3 ^ k" by (intro power_mono exp_le) simp
  finally show ?thesis .
qed


lemma exp_neg_lower:
  assumes "x \<le> real k"
  shows "1 / 3 ^ k \<le> exp (- x)"
proof -
  have "exp x \<le> exp (real k)" using assms by simp
  also have "\<dots> \<le> 3 ^ k" by (rule exp_nat_le)
  finally have "exp x \<le> 3 ^ k" .
  then have "1 / 3 ^ k \<le> 1 / exp x" by (intro divide_left_mono) simp_all
  then show ?thesis by (simp add: exp_minus divide_inverse)
qed


lemma normal_between:
  assumes "min_normal \<le> a" "a \<le> x" "x \<le> b" "b < overflow_threshold"
  shows "normal x"
proof -
  from assms(1,2) min_normal_pos have "0 < x" by linarith
  then have "\<bar>x\<bar> = x" by simp
  with assms show ?thesis by (intro normalI) simp_all
qed

lemma poisson_in_range_box:
  assumes n: "0 < n" and x: "r * T = 0 \<or> (lo \<le> r * T \<and> r * T \<le> real k)"
    and lo: "0 < lo"
    and c: "min_normal \<le> lo" "real k < overflow_threshold" "real k ^ n < overflow_threshold"
      "min_normal \<le> 1 / 3 ^ k" "min_normal \<le> lo ^ n / 3 ^ k"
  shows "poisson_in_range n T r"
    and "poisson_value n T r = 0
         \<or> (lo ^ n / 3 ^ k \<le> poisson_value n T r \<and> poisson_value n T r \<le> real k ^ n)"
proof -
  have both: "poisson_in_range n T r \<and> (poisson_value n T r = 0
         \<or> (lo ^ n / 3 ^ k \<le> poisson_value n T r \<and> poisson_value n T r \<le> real k ^ n))"
  proof (cases "r * T = 0")
    case True
    have "normal (1::real)" using min_normal_le_one one_less_overflow by (simp add: normal_def)
    with n show ?thesis
      unfolding poisson_in_range_def poisson_value_def True
      by (simp add: normal_zero power_0_left)
  next
    case False
    with x have b: "lo \<le> r * T" "r * T \<le> real k" by simp_all
    with lo have pos: "0 < r * T" by linarith
    have p1: "lo ^ n \<le> (r * T) ^ n" using b(1) lo by (intro power_mono) simp_all
    have p2: "(r * T) ^ n \<le> real k ^ n" using b(2) pos by (intro power_mono) simp_all
    have e1: "1 / 3 ^ k \<le> exp (- (r * T))" by (rule exp_neg_lower [OF b(2)])
    have e2: "exp (- (r * T)) \<le> 1" using pos by simp
    have "lo ^ n / 3 ^ k \<le> lo ^ n / 1" using lo by (intro divide_left_mono) simp_all
    then have l3: "lo ^ n / 3 ^ k \<le> lo ^ n" by simp
    have v1: "lo ^ n / 3 ^ k \<le> (r * T) ^ n * exp (- (r * T))"
    proof -
      have "lo ^ n * (1 / 3 ^ k) \<le> (r * T) ^ n * exp (- (r * T))"
        using p1 e1 lo pos by (intro mult_mono) simp_all
      then show ?thesis by simp
    qed
    have v2: "(r * T) ^ n * exp (- (r * T)) \<le> real k ^ n"
    proof -
      have "(r * T) ^ n * exp (- (r * T)) \<le> real k ^ n * 1"
        using p2 e2 by (intro mult_mono) simp_all
      then show ?thesis by simp
    qed
    have "normal (r * T)" by (rule normal_between [OF c(1) b c(2)])
    moreover have "normal ((r * T) ^ n)"
      using c(5) l3 by (intro normal_between [OF _ p1 p2 c(3)]) linarith
    moreover have "normal (exp (- (r * T)))"
      by (rule normal_between [OF c(4) e1 e2 one_less_overflow])
    moreover have "normal ((r * T) ^ n * exp (- (r * T)))"
      by (rule normal_between [OF c(5) v1 v2 c(3)])
    ultimately show ?thesis using v1 v2 by (simp add: poisson_in_range_def poisson_value_def)
  qed
  from both show "poisson_in_range n T r" by simp
  from both show "poisson_value n T r = 0
         \<or> (lo ^ n / 3 ^ k \<le> poisson_value n T r \<and> poisson_value n T r \<le> real k ^ n)" by simp
qed











section \<open>Scalar and vector arguments\<close>

text \<open>
  C5.  \<open>cauchy_like\<close> returns a scalar for a scalar and a vector of the same length for
  a vector, failing only when \<open>scale**2\<close> overflows.  \<open>norm_like\<close> returns a vector of
  the same length for a vector, but on a scalar its loop over the 0-d array raises
  TypeError.
\<close>

theorem norm_like_scalar_raises:
  "norm_like data (Scalar mu) sig = Inl TypeError
   \<and> norm_like [21 / 10, 48 / 10] (Scalar 5) 3 = Inl TypeError
   \<and> (\<exists>l. norm_like data (Vector mus) sig = Inr (Vector l) \<and> length l = length mus)
   \<and> (\<exists>l. norm_like data (IntVector ks) sig = Inr (Vector l) \<and> length l = length ks)
   \<and> (\<exists>v. cauchy_like data (Scalar x0) scale
            = (if overflow_threshold \<le> scale ^ 2 then Inl OverflowError else Inr (Scalar v)))
   \<and> (\<exists>l. cauchy_like data (Vector xs) scale
            = (if overflow_threshold \<le> scale ^ 2 then Inl OverflowError else Inr (Vector l))
          \<and> length l = length xs)
   \<and> (\<exists>l. cauchy_like data (IntVector ks) scale
            = (if overflow_threshold \<le> scale ^ 2 then Inl OverflowError else Inr (IntVector l))
          \<and> length l = length ks)
   \<and> (\<exists>v. cauchy_like [21 / 10, 48 / 10] (Scalar 5) 3 = Inr (Scalar v))"
proof -
  have "\<not> overflow_threshold \<le> (3::real) ^ 2" by (simp add: overflow_threshold_def)
  then show ?thesis
    by (simp add: norm_like_def cauchy_like_def Let_def Ex_list_of_length)
qed

section \<open>Enclosures of the likelihood ratios\<close>

lemma exp_rate_bounds:
  "4089 / 5000 \<le> exp (- (40 / 199) :: real)" "exp (- (40 / 199) :: real) \<le> 409 / 500"
proof -
  let ?x = "- (40 / 199) :: real"
  obtain t where t: "exp ?x = (\<Sum>m<4. ?x ^ m / fact m) + exp t / fact 4 * ?x ^ 4"
    using Maclaurin_exp_le [of ?x 4] by blast
  have "0 \<le> exp t / fact 4 * ?x ^ 4" by simp
  with t have "(\<Sum>m<4. ?x ^ m / fact m) \<le> exp ?x" by linarith
  moreover have "4089 / 5000 \<le> (\<Sum>m<4. ?x ^ m / fact m)"
    by (simp add: eval_nat_numeral lessThan_Suc)
  ultimately show "4089 / 5000 \<le> exp ?x" by linarith
  obtain s where s: "exp ?x = (\<Sum>m<5. ?x ^ m / fact m) + exp s / fact 5 * ?x ^ 5"
    using Maclaurin_exp_le [of ?x 5] by blast
  have "?x ^ 5 \<le> 0" by (simp add: power_le_zero_eq)
  then have "exp s / fact 5 * ?x ^ 5 \<le> 0"
    by (intro mult_nonneg_nonpos) simp_all
  with s have "exp ?x \<le> (\<Sum>m<5. ?x ^ m / fact m)" by linarith
  moreover have "(\<Sum>m<5. ?x ^ m / fact m) \<le> 409 / 500"
    by (simp add: eval_nat_numeral lessThan_Suc)
  ultimately show "exp ?x \<le> 409 / 500" by linarith
qed

lemma peak_ratio_nonneg: "0 \<le> peak_ratio i"
  by (simp add: peak_ratio_def)

lemma peak_ratio_80: "peak_ratio 80 = 1"
  by (simp add: peak_ratio_def)

lemma peak_ratio_Suc:
  "peak_ratio (Suc k) * real k ^ 16 = peak_ratio k * real (Suc k) ^ 16 * exp (- (40 / 199))"
proof -
  have "- (40 / 199) * (real (Suc k) - 80) = - (40 / 199) * (real k - 80) + - (40 / 199)"
    by (simp add: field_simps)
  then have "exp (- (40 / 199) * (real (Suc k) - 80)) =
        exp (- (40 / 199) * (real k - 80)) * exp (- (40 / 199))"
    by (simp only: exp_add)
  then show ?thesis
    by (simp add: peak_ratio_def power_divide)
qed

lemma adjacent_nth:
  "adjacent P k xs \<Longrightarrow> Suc j < length xs \<Longrightarrow> P (k + int j) (xs ! j) (xs ! Suc j)"
proof (induction P k xs arbitrary: j rule: adjacent.induct)
  case (1 P k x y ys)
  show ?case
  proof (cases j)
    case 0
    with 1 show ?thesis by simp
  next
    case (Suc i)
    with 1 have "P (k + 1 + int i) ((y # ys) ! i) ((y # ys) ! Suc i)" by simp
    with Suc show ?thesis by (simp add: ac_simps)
  qed
qed simp_all

lemma step_ok_up:
  assumes k: "80 \<le> k" and ok: "step_ok (int k) (l, h) (l', h')"
    and b: "of_int l \<le> 1000000 * peak_ratio k" "1000000 * peak_ratio k \<le> of_int h"
  shows "of_int l' \<le> 1000000 * peak_ratio (Suc k) \<and> 1000000 * peak_ratio (Suc k) \<le> of_int h'"
proof -
  define A where "A = 1000000 * peak_ratio k"
  define A' where "A' = 1000000 * peak_ratio (Suc k)"
  define K where "K = real k ^ 16"
  define K' where "K' = real (Suc k) ^ 16"
  define q where "q = exp (- (40 / 199) :: real)"
  have K: "0 < K" "0 \<le> K'" using k by (simp_all add: K_def K'_def)
  have A: "0 \<le> A" by (simp add: A_def peak_ratio_nonneg)
  have rec: "A' * K = A * K' * q"
    using peak_ratio_Suc [of k] by (simp add: A_def A'_def K_def K'_def q_def algebra_simps)
  have q: "4089 \<le> q * 5000" "q * 500 \<le> 409"
    using exp_rate_bounds by (simp_all add: q_def)
  from ok k have "l' * int k ^ 16 * 5000 \<le> l * (int k + 1) ^ 16 * 4089"
    and "h * (int k + 1) ^ 16 * 409 \<le> h' * int k ^ 16 * 500"
    by (simp_all add: step_ok_def)
  then have "real_of_int (l' * int k ^ 16 * 5000) \<le> real_of_int (l * (int k + 1) ^ 16 * 4089)"
    and "real_of_int (h * (int k + 1) ^ 16 * 409) \<le> real_of_int (h' * int k ^ 16 * 500)"
    by (simp_all only: of_int_le_iff)
  then have c: "of_int l' * K * 5000 \<le> of_int l * K' * 4089" "of_int h * K' * 409 \<le> of_int h' * K * 500"
    by (simp_all add: K_def K'_def add.commute)
  have "of_int l' * K * 5000 \<le> of_int l * K' * 4089" by (rule c)
  also have "\<dots> \<le> A * K' * 4089"
    using b(1) K by (intro mult_right_mono) (simp_all add: A_def)
  also have "\<dots> \<le> (A * K') * (q * 5000)"
    using A K q by (intro mult_left_mono) simp_all
  also have "\<dots> = A' * K * 5000" using rec by simp
  finally have lower: "of_int l' \<le> A'" using K by simp
  have "A' * K * 500 = (A * K') * (q * 500)" using rec by simp
  also have "\<dots> \<le> (A * K') * 409"
    using A K q by (intro mult_left_mono) simp_all
  also have "\<dots> \<le> of_int h * K' * 409"
    using b(2) K by (intro mult_right_mono) (simp_all add: A_def)
  also have "\<dots> \<le> of_int h' * K * 500" by (rule c)
  finally have upper: "A' \<le> of_int h'" using K by simp
  from lower upper show ?thesis by (simp add: A'_def)
qed

lemma step_ok_down:
  assumes k: "k < 80" and ok: "step_ok (int k) (l, h) (l', h')"
    and b: "of_int l' \<le> 1000000 * peak_ratio (Suc k)" "1000000 * peak_ratio (Suc k) \<le> of_int h'"
  shows "of_int l \<le> 1000000 * peak_ratio k \<and> 1000000 * peak_ratio k \<le> of_int h"
proof -
  define A where "A = 1000000 * peak_ratio k"
  define A' where "A' = 1000000 * peak_ratio (Suc k)"
  define K where "K = real k ^ 16"
  define K' where "K' = real (Suc k) ^ 16"
  define q where "q = exp (- (40 / 199) :: real)"
  have K: "0 \<le> K" "0 < K'" by (simp_all add: K_def K'_def)
  have A: "0 \<le> A" by (simp add: A_def peak_ratio_nonneg)
  have rec: "A' * K = A * K' * q"
    using peak_ratio_Suc [of k] by (simp add: A_def A'_def K_def K'_def q_def algebra_simps)
  have q: "4089 \<le> q * 5000" "q * 500 \<le> 409"
    using exp_rate_bounds by (simp_all add: q_def)
  from ok k have "l * (int k + 1) ^ 16 * 409 \<le> l' * int k ^ 16 * 500"
    and "h' * int k ^ 16 * 5000 \<le> h * (int k + 1) ^ 16 * 4089"
    by (simp_all add: step_ok_def)
  then have "real_of_int (l * (int k + 1) ^ 16 * 409) \<le> real_of_int (l' * int k ^ 16 * 500)"
    and "real_of_int (h' * int k ^ 16 * 5000) \<le> real_of_int (h * (int k + 1) ^ 16 * 4089)"
    by (simp_all only: of_int_le_iff)
  then have c: "of_int l * K' * 409 \<le> of_int l' * K * 500" "of_int h' * K * 5000 \<le> of_int h * K' * 4089"
    by (simp_all add: K_def K'_def add.commute)
  have "of_int l * K' * 409 \<le> of_int l' * K * 500" by (rule c)
  also have "\<dots> \<le> A' * K * 500"
    using b(1) K by (intro mult_right_mono) (simp_all add: A'_def)
  also have "\<dots> = (A * K') * (q * 500)" using rec by simp
  also have "\<dots> \<le> (A * K') * 409"
    using A K q by (intro mult_left_mono) simp_all
  finally have lower: "of_int l \<le> A" using K by simp
  have "A * K' * 4089 \<le> (A * K') * (q * 5000)"
    using A K q by (intro mult_left_mono) simp_all
  also have "\<dots> = A' * K * 5000" using rec by simp
  also have "\<dots> \<le> of_int h' * K * 5000"
    using b(2) K by (intro mult_right_mono) (simp_all add: A'_def)
  also have "\<dots> \<le> of_int h * K' * 4089" by (rule c)
  finally have upper: "A \<le> of_int h" using K by simp
  from lower upper show ?thesis by (simp add: A_def)
qed

lemma ratio_bounds_adjacent: "adjacent step_ok 0 ratio_bounds"
  by code_simp

lemma length_ratio_bounds: "length ratio_bounds = 200"
  unfolding ratio_bounds_def by simp

lemma ratio_bounds_80: "ratio_bounds ! 80 = (1000000, 1000000)"
  unfolding ratio_bounds_def by simp

lemma ratio_bounds_step:
  assumes "Suc j < 200"
  shows "step_ok (int j) (fst (ratio_bounds ! j), snd (ratio_bounds ! j))
           (fst (ratio_bounds ! Suc j), snd (ratio_bounds ! Suc j))"
  using adjacent_nth [OF ratio_bounds_adjacent, of j] assms
  by (simp add: length_ratio_bounds)

lemma ratio_bounds_sound:
  assumes "i < 200"
  shows "of_int (fst (ratio_bounds ! i)) \<le> 1000000 * peak_ratio i
       \<and> 1000000 * peak_ratio i \<le> of_int (snd (ratio_bounds ! i))"
proof -
  let ?B = "\<lambda>i. of_int (fst (ratio_bounds ! i)) \<le> 1000000 * peak_ratio i
       \<and> 1000000 * peak_ratio i \<le> of_int (snd (ratio_bounds ! i))"
  have base: "?B 80" by (simp add: ratio_bounds_80 peak_ratio_80)
  show ?thesis
  proof (cases "80 \<le> i")
    case True
    have "i < 200 \<longrightarrow> ?B i"
      using True
    proof (induction i rule: dec_induct)
      case base
      then show ?case using \<open>?B 80\<close> by blast
    next
      case (step n)
      show ?case
      proof
        assume n: "Suc n < 200"
        with step have "?B n" by simp
        then show "?B (Suc n)"
          using step_ok_up [OF step(1) ratio_bounds_step [OF n]] by blast
      qed
    qed
    with assms show ?thesis by blast
  next
    case False
    then have "i \<le> 80" by simp
    then show ?thesis
    proof (induction i rule: inc_induct)
      case base
      then show ?case using \<open>?B 80\<close> by blast
    next
      case (step n)
      from step(2) have n: "Suc n < 200" by simp
      show ?case
        using step_ok_down [OF step(2) ratio_bounds_step [OF n]] step(3) by blast
    qed
  qed
qed

section \<open>Variance as a ratio of trapezoidal sums\<close>

lemma rtrapz_map_upt:
  "rtrapz (map f [0..<Suc n]) dx = dx * trap_sum n f"
proof -
  have t: "tl (map f [0..<Suc n]) = map (\<lambda>k. f (Suc k)) [0..<n]"
    by (simp add: map_tl [symmetric] map_Suc_upt [symmetric] del: upt_Suc)
  have b: "butlast (map f [0..<Suc n]) = map f [0..<n]"
    by (simp add: map_butlast [symmetric])
  have "zip (tl (map f [0..<Suc n])) (butlast (map f [0..<Suc n]))
      = map (\<lambda>k. (f (Suc k), f k)) [0..<n]"
    unfolding t b by (simp add: zip_map_map zip_same_conv_map)
  then have "rtrapz (map f [0..<Suc n]) dx = (\<Sum>k\<leftarrow>[0..<n]. dx * (f (Suc k) + f k) / 2)"
    by (simp add: rtrapz_def o_def)
  also have "\<dots> = (\<Sum>k<n. dx * (f (Suc k) + f k) / 2)"
    by (simp add: interv_sum_list_conv_sum_set_nat atLeast0LessThan)
  also have "\<dots> = dx * trap_sum n f"
    by (simp add: trap_sum_def sum_distrib_left)
  finally show ?thesis .
qed

lemma trap_sum_linear:
  "trap_sum n (\<lambda>i. a * f i + b * g i + c * h i)
     = a * trap_sum n f + b * trap_sum n g + c * trap_sum n h"
  by (simp add: trap_sum_def sum.distrib sum_distrib_left sum_divide_distrib [symmetric]
      algebra_simps add_divide_distrib)

lemma trap_sum_scale: "trap_sum n (\<lambda>i. a * f i) = a * trap_sum n f"
  using trap_sum_linear [of n a f 0 f 0 f] by simp

lemma trap_sum_divide: "trap_sum n (\<lambda>i. f i / a) = trap_sum n f / a"
  using trap_sum_scale [of n "1 / a" f] by simp

lemma trap_sum_mono:
  assumes "\<And>i. i \<le> n \<Longrightarrow> f i \<le> g i"
  shows "trap_sum n f \<le> trap_sum n g"
  unfolding trap_sum_def
proof (rule sum_mono)
  fix k assume "k \<in> {..<n}"
  then have "f (Suc k) \<le> g (Suc k)" "f k \<le> g k" using assms by simp_all
  then show "(f (Suc k) + f k) / 2 \<le> (g (Suc k) + g k) / 2" by simp
qed

lemma trap_sum_cong:
  assumes "\<And>i. i \<le> n \<Longrightarrow> f i = g i"
  shows "trap_sum n f = trap_sum n g"
  unfolding trap_sum_def by (rule sum.cong) (simp_all add: assms)

lemma trap_sum_abs: "\<bar>trap_sum n f\<bar> \<le> trap_sum n (\<lambda>i. \<bar>f i\<bar>)"
proof -
  have "\<bar>trap_sum n f\<bar> \<le> (\<Sum>k<n. \<bar>(f (Suc k) + f k) / 2\<bar>)"
    unfolding trap_sum_def by (rule sum_abs)
  also have "\<dots> \<le> (\<Sum>k<n. (\<bar>f (Suc k)\<bar> + \<bar>f k\<bar>) / 2)"
    by (rule sum_mono) (simp add: abs_triangle_ineq divide_right_mono)
  finally show ?thesis by (simp add: trap_sum_def)
qed

lemma trap_sum_nonneg: "(\<And>i. i \<le> n \<Longrightarrow> 0 \<le> f i) \<Longrightarrow> 0 \<le> trap_sum n f"
  using trap_sum_mono [of n "\<lambda>_. 0" f] by (simp add: trap_sum_def)

lemma trap_sum_Suc_shift:
  "trap_sum (Suc m) g = (g (Suc 0) + g 0) / 2 + trap_sum m (\<lambda>i. g (Suc i))"
  by (simp only: trap_sum_def sum.lessThan_Suc_shift)

lemma moment_sum_trap:
  "of_int (moment_sum F k xs) =
     2 * trap_sum (length xs - 1) (\<lambda>i. of_int (F (k + int i) (xs ! i)))"
proof (induction F k xs rule: moment_sum.induct)
  case (1 F k x y ys)
  have "trap_sum (Suc (length ys)) (\<lambda>i. real_of_int (F (k + int i) ((x # y # ys) ! i)))
      = (real_of_int (F (k + 1) y) + real_of_int (F k x)) / 2
        + trap_sum (length ys) (\<lambda>i. real_of_int (F (k + 1 + int i) ((y # ys) ! i)))"
    by (simp only: trap_sum_Suc_shift) (simp add: ac_simps)
  with 1 show ?case by simp
qed (simp_all add: trap_sum_def)

lemma map2_map_upt:
  "map2 F (map g [0..<m]) (map h [0..<m]) = map (\<lambda>i. F (g i) (h i)) [0..<m]"
  by (simp add: zip_map_map zip_same_conv_map)

lemma pdf_var_trap:
  fixes u :: "nat \<Rightarrow> real"
  assumes dr: "0 < dr" and M0: "0 < trap_sum n u"
  shows "pdf_var (map (\<lambda>i. dr * real i) [0..<Suc n])
           (map (\<lambda>i. u i / rtrapz (map u [0..<Suc n]) dr) [0..<Suc n]) dr
       = dr ^ 2 * (trap_sum n (\<lambda>i. (real i - c) ^ 2 * u i) / trap_sum n u
                  - (trap_sum n (\<lambda>i. (real i - c) * u i) / trap_sum n u) ^ 2)"
proof -
  define M0 where "M0 = trap_sum n u"
  define M1 where "M1 = trap_sum n (\<lambda>i. (real i - c) * u i)"
  define M2 where "M2 = trap_sum n (\<lambda>i. (real i - c) ^ 2 * u i)"
  define S1 where "S1 = trap_sum n (\<lambda>i. real i * u i)"
  define Z where "Z = rtrapz (map u [0..<Suc n]) dr"
  define mu where "mu = S1 / M0"
  let ?rvals = "map (\<lambda>i. dr * real i) [0..<Suc n]"
  let ?p = "map (\<lambda>i. u i / Z) [0..<Suc n]"
  have M0pos: "0 < M0" using M0 by (simp add: M0_def)
  have Z: "Z = dr * M0" unfolding Z_def M0_def by (rule rtrapz_map_upt)
  have Zpos: "0 < Z" using dr M0pos by (simp add: Z)
  have "pdf_mean ?rvals ?p dr = rtrapz (map (\<lambda>i. dr * real i * (u i / Z)) [0..<Suc n]) dr"
    by (simp only: pdf_mean_def map2_map_upt)
  also have "\<dots> = dr * trap_sum n (\<lambda>i. dr * real i * (u i / Z))"
    by (rule rtrapz_map_upt)
  also have "trap_sum n (\<lambda>i. dr * real i * (u i / Z)) = trap_sum n (\<lambda>i. (dr / Z) * (real i * u i))"
    by (rule trap_sum_cong) simp
  also have "\<dots> = (dr / Z) * S1" by (simp only: trap_sum_scale S1_def)
  finally have mean: "pdf_mean ?rvals ?p dr = dr * mu"
    using dr M0pos by (simp add: Z mu_def del: upt_Suc)
  have M1: "M1 = S1 - c * M0"
  proof -
    have "M1 = trap_sum n (\<lambda>i. 1 * (real i * u i) + (- c) * u i + 0 * u i)"
      unfolding M1_def by (rule trap_sum_cong) (simp add: algebra_simps)
    also have "\<dots> = S1 - c * M0"
      using trap_sum_linear [of n 1 "\<lambda>i. real i * u i" "- c" u 0 u]
      by (simp add: S1_def M0_def)
    finally show ?thesis .
  qed
  then have muc: "mu - c = M1 / M0" using M0pos by (simp add: mu_def field_simps)
  have cen: "trap_sum n (\<lambda>i. (real i - mu) ^ 2 * u i) = M2 - M1 ^ 2 / M0"
  proof -
    have "trap_sum n (\<lambda>i. (real i - mu) ^ 2 * u i)
        = trap_sum n (\<lambda>i. 1 * ((real i - c) ^ 2 * u i) + (- 2 * (mu - c)) * ((real i - c) * u i)
            + (mu - c) ^ 2 * u i)"
      by (rule trap_sum_cong) (simp add: power2_eq_square algebra_simps)
    also have "\<dots> = M2 + (- 2 * (mu - c)) * M1 + (mu - c) ^ 2 * M0"
      using trap_sum_linear [of n 1 "\<lambda>i. (real i - c) ^ 2 * u i" "- 2 * (mu - c)"
          "\<lambda>i. (real i - c) * u i" "(mu - c) ^ 2" u]
      by (simp add: M2_def M1_def M0_def)
    also have "\<dots> = M2 - M1 ^ 2 / M0"
      using M0pos by (simp add: muc power2_eq_square field_simps)
    finally show ?thesis .
  qed
  have "pdf_var ?rvals ?p dr
      = rtrapz (map (\<lambda>i. (dr * real i - dr * mu) ^ 2 * (u i / Z)) [0..<Suc n]) dr"
    by (simp only: pdf_var_def mean map2_map_upt)
  also have "\<dots> = dr * trap_sum n (\<lambda>i. (dr * real i - dr * mu) ^ 2 * (u i / Z))"
    by (rule rtrapz_map_upt)
  also have "trap_sum n (\<lambda>i. (dr * real i - dr * mu) ^ 2 * (u i / Z))
      = trap_sum n (\<lambda>i. (dr ^ 2 / Z) * ((real i - mu) ^ 2 * u i))"
    by (rule trap_sum_cong) (simp add: power2_eq_square algebra_simps)
  also have "\<dots> = (dr ^ 2 / Z) * (M2 - M1 ^ 2 / M0)"
    by (simp only: trap_sum_scale cen)
  finally have "pdf_var ?rvals ?p dr = dr * ((dr ^ 2 / Z) * (M2 - M1 ^ 2 / M0))" .
  also have "\<dots> = dr ^ 2 * (M2 / M0 - (M1 / M0) ^ 2)"
    using dr M0pos by (simp add: Z power2_eq_square field_simps)
  finally show ?thesis
    by (simp only: M0_def M1_def M2_def Z_def)
qed

lemma linspace_rate_grid: "linspace 0 20 200 = map (\<lambda>i. 20 / 199 * real i) [0..<Suc 199]"
proof -
  have "linspace 0 20 200 = map (\<lambda>i. real i * (20 / 199)) [0..<199] @ [20]"
    by (simp add: linspace_def)
  also have "\<dots> = map (\<lambda>i. 20 / 199 * real i) [0..<199] @ [20 / 199 * real 199]"
    by (simp add: mult.commute)
  also have "\<dots> = map (\<lambda>i. 20 / 199 * real i) [0..<Suc 199]"
    by (simp only: upt_Suc_append [OF le0] map_append list.map)
  finally show ?thesis .
qed

lemma flat_posterior_var:
  fixes a :: "nat \<Rightarrow> real"
  assumes pos: "0 < kappa" "0 < c" "0 < dr" and M0: "0 < trap_sum (Suc n) a"
    and drn: "normal dr"
    and box: "\<forall>i<Suc (Suc n). c * (kappa * a i) = 0
                \<or> (lo \<le> c * (kappa * a i) \<and> c * (kappa * a i) \<le> hi)"
    and lo: "0 < lo" "lo \<le> hi"
    and c1: "min_normal \<le> lo" and c2: "2 * min_normal \<le> dr * lo"
    and c3: "2 * (real (Suc (Suc n)) * hi) < overflow_threshold"
    and c4: "2 * dr * (real (Suc (Suc n)) * hi) < overflow_threshold"
    and c5: "min_normal * (dr * (real (Suc (Suc n)) * hi)) \<le> lo"
    and c6: "2 * hi < overflow_threshold * (dr * lo)"
  shows "\<exists>p. post_pdf (map (\<lambda>i. dr * real i) [0..<Suc (Suc n)])
              (map Fin (map (\<lambda>i. c) [0..<Suc (Suc n)]))
              (map Fin (map (\<lambda>i. kappa * a i) [0..<Suc (Suc n)])) = Inr (map Fin p)
          \<and> pdf_var (map (\<lambda>i. dr * real i) [0..<Suc (Suc n)]) p dr
              = dr ^ 2 * (trap_sum (Suc n) (\<lambda>i. (real i - 80) ^ 2 * a i) / trap_sum (Suc n) a
                  - (trap_sum (Suc n) (\<lambda>i. (real i - 80) * a i) / trap_sum (Suc n) a) ^ 2)"
proof -
  let ?N = "Suc (Suc n)"
  let ?rvals = "map (\<lambda>i. dr * real i) [0..<?N]"
  let ?ps = "map (\<lambda>i. c) [0..<?N]"
  let ?ls = "map (\<lambda>i. kappa * a i) [0..<?N]"
  define u where "u = (\<lambda>i. c * (kappa * a i))"
  define Z where "Z = rtrapz (map u [0..<?N]) dr"
  have k: "0 < c * kappa" using pos by simp
  have su: "trap_sum (Suc n) (\<lambda>i. f i * u i) = c * kappa * trap_sum (Suc n) (\<lambda>i. f i * a i)" for f
  proof -
    have "trap_sum (Suc n) (\<lambda>i. f i * u i) = trap_sum (Suc n) (\<lambda>i. (c * kappa) * (f i * a i))"
      by (rule trap_sum_cong) (simp add: u_def)
    then show ?thesis by (simp only: trap_sum_scale)
  qed
  have su0: "trap_sum (Suc n) u = c * kappa * trap_sum (Suc n) a"
    using su [of "\<lambda>_. 1"] by simp
  have M0u: "0 < trap_sum (Suc n) u" using k M0 by (simp add: su0)
  have Z: "Z = dr * trap_sum (Suc n) u" unfolding Z_def by (rule rtrapz_map_upt)
  then have Zpos: "0 < Z" using pos M0u by simp
  have step: "?rvals ! 1 - ?rvals ! 0 = dr"
    by (simp add: nth_append del: upt_Suc)
  have ys: "map2 (*) ?ps ?ls = map u [0..<?N]"
    by (simp only: map2_map_upt u_def)
  have len: "length (map u [0..<?N]) = ?N" by simp
  have ubox: "\<forall>y\<in>set (map u [0..<?N]). y = 0 \<or> (lo \<le> y \<and> y \<le> hi)"
    using box by (auto simp: u_def simp del: upt_Suc)
  have safe: "trapz_safe (map u [0..<?N]) dr"
    by (rule trapz_safe_box [OF pos(3) ubox lo c1 c2]) (simp_all only: len c3 c4)
  have q: "\<forall>y\<in>set (map u [0..<?N]). normal (y / Z)"
  proof
    fix y assume "y \<in> set (map u [0..<?N])"
    then show "normal (y / Z)"
      by (intro quotient_normal_box [OF pos(3) ubox lo Z_def Zpos]) (simp_all only: len c5 c6)
  qed
  have "post_pdf ?rvals (map Fin ?ps) (map Fin ?ls)
      = Inr (map Fin (map (\<lambda>y. y / Z) (map2 (*) ?ps ?ls)))"
  proof (rule post_pdf_exact(1) [OF _ _ _ step drn])
    show "trapz_safe (map2 (*) ?ps ?ls) dr" by (simp only: ys safe)
    show "Z = rtrapz (map2 (*) ?ps ?ls) dr" by (simp only: ys Z_def)
    show "0 < Z" by (rule Zpos)
    show "\<forall>y\<in>set (map2 (*) ?ps ?ls). normal (y / Z)" unfolding ys by (rule q)
  qed simp_all
  also have "map (\<lambda>y. y / Z) (map2 (*) ?ps ?ls) = map (\<lambda>i. u i / Z) [0..<?N]"
    by (simp only: ys map_map o_def)
  finally have post: "post_pdf ?rvals (map Fin ?ps) (map Fin ?ls)
      = Inr (map Fin (map (\<lambda>i. u i / Z) [0..<?N]))" .
  have "pdf_var ?rvals (map (\<lambda>i. u i / Z) [0..<?N]) dr
      = dr ^ 2 * (trap_sum (Suc n) (\<lambda>i. (real i - 80) ^ 2 * u i) / trap_sum (Suc n) u
                  - (trap_sum (Suc n) (\<lambda>i. (real i - 80) * u i) / trap_sum (Suc n) u) ^ 2)"
    unfolding Z_def by (rule pdf_var_trap [OF pos(3) M0u])
  also have "\<dots> = dr ^ 2 * (trap_sum (Suc n) (\<lambda>i. (real i - 80) ^ 2 * a i) / trap_sum (Suc n) a
                  - (trap_sum (Suc n) (\<lambda>i. (real i - 80) * a i) / trap_sum (Suc n) a) ^ 2)"
    using pos by (simp add: su su0)
  finally show ?thesis using post by blast
qed

section \<open>Bounds on the moments\<close>

lemma moment_values:
  "moment_sum (\<lambda>k b. snd b) 0 ratio_bounds = 100502170"
  "moment_sum (\<lambda>k b. fst b) 0 ratio_bounds = 100096175"
  "moment_sum (\<lambda>k b. (k - 80) ^ 2 * fst b) 0 ratio_bounds = 44068532403"
  "moment_sum (\<lambda>k b. \<bar>k - 80\<bar> * snd b) 0 ratio_bounds = 1650026020"
  "moment_sum (\<lambda>k b. fst b ^ 5) 0 ratio_bounds = 44510872018229146264213501693955"
  "moment_sum (\<lambda>k b. (k - 80) ^ 2 * snd b ^ 5) 0 ratio_bounds
     = 3632587976306644674261456932119090"
  by code_simp+

lemma trap_moment:
  "trap_sum 199 (\<lambda>i. of_int (F (int i) (ratio_bounds ! i)))
     = of_int (moment_sum F 0 ratio_bounds) / 2"
  using moment_sum_trap [of F 0 ratio_bounds] by (simp add: length_ratio_bounds)

lemma trap_lower:
  assumes "\<And>i. i \<le> 199 \<Longrightarrow> g i \<le> 1000000 ^ m * f i" and "trap_sum 199 g = v"
  shows "v / 1000000 ^ m \<le> trap_sum 199 f"
proof -
  have "trap_sum 199 g \<le> trap_sum 199 (\<lambda>i. 1000000 ^ m * f i)"
    by (rule trap_sum_mono) (rule assms(1))
  then have "v \<le> 1000000 ^ m * trap_sum 199 f"
    by (simp only: trap_sum_scale assms(2))
  then show ?thesis by (simp add: field_simps)
qed

lemma trap_upper:
  assumes "\<And>i. i \<le> 199 \<Longrightarrow> 1000000 ^ m * f i \<le> g i" and "trap_sum 199 g = v"
  shows "trap_sum 199 f \<le> v / 1000000 ^ m"
proof -
  have "trap_sum 199 (\<lambda>i. 1000000 ^ m * f i) \<le> trap_sum 199 g"
    by (rule trap_sum_mono) (rule assms(1))
  then have "1000000 ^ m * trap_sum 199 f \<le> v"
    by (simp only: trap_sum_scale assms(2))
  then show ?thesis by (simp add: field_simps)
qed

lemma peak_ratio_lower:
  "i \<le> 199 \<Longrightarrow> of_int (fst (ratio_bounds ! i)) \<le> 1000000 * peak_ratio i"
  using ratio_bounds_sound [of i] by simp

lemma peak_ratio_upper:
  "i \<le> 199 \<Longrightarrow> 1000000 * peak_ratio i \<le> of_int (snd (ratio_bounds ! i))"
  using ratio_bounds_sound [of i] by simp

lemma mass_upper: "trap_sum 199 peak_ratio \<le> 100502170 / 2 / 1000000"
proof -
  have v: "trap_sum 199 (\<lambda>i. real_of_int (snd (ratio_bounds ! i))) = 100502170 / 2"
    using trap_moment [of "\<lambda>k b. snd b"] by (simp add: moment_values)
  show ?thesis
    using trap_upper [of 1 peak_ratio, OF _ v] by (simp add: peak_ratio_upper)
qed

lemma mass_lower: "100096175 / 2 / 1000000 \<le> trap_sum 199 peak_ratio"
proof -
  have v: "trap_sum 199 (\<lambda>i. real_of_int (fst (ratio_bounds ! i))) = 100096175 / 2"
    using trap_moment [of "\<lambda>k b. fst b"] by (simp add: moment_values)
  show ?thesis
    using trap_lower [of _ 1 peak_ratio, OF _ v] by (simp add: peak_ratio_lower)
qed

lemma second_moment_lower:
  "44068532403 / 2 / 1000000 \<le> trap_sum 199 (\<lambda>i. (real i - 80) ^ 2 * peak_ratio i)"
proof -
  have v: "trap_sum 199 (\<lambda>i. (real i - 80) ^ 2 * real_of_int (fst (ratio_bounds ! i)))
      = 44068532403 / 2"
    using trap_moment [of "\<lambda>k b. (k - 80) ^ 2 * fst b"] by (simp add: moment_values)
  have "(real i - 80) ^ 2 * real_of_int (fst (ratio_bounds ! i))
      \<le> 1000000 ^ 1 * ((real i - 80) ^ 2 * peak_ratio i)" if "i \<le> 199" for i
  proof -
    have "(real i - 80) ^ 2 * real_of_int (fst (ratio_bounds ! i))
        \<le> (real i - 80) ^ 2 * (1000000 * peak_ratio i)"
      by (intro mult_left_mono peak_ratio_lower [OF that]) simp
    then show ?thesis by (simp add: mult.left_commute)
  qed
  from trap_lower [of _ 1 "\<lambda>i. (real i - 80) ^ 2 * peak_ratio i", OF this v]
  show ?thesis by simp
qed

lemma first_moment_abs:
  "\<bar>trap_sum 199 (\<lambda>i. (real i - 80) * peak_ratio i)\<bar> \<le> 1650026020 / 2 / 1000000"
proof -
  have v: "trap_sum 199 (\<lambda>i. \<bar>real i - 80\<bar> * real_of_int (snd (ratio_bounds ! i)))
      = 1650026020 / 2"
    using trap_moment [of "\<lambda>k b. \<bar>k - 80\<bar> * snd b"] by (simp add: moment_values)
  have "1000000 ^ 1 * \<bar>(real i - 80) * peak_ratio i\<bar>
      \<le> \<bar>real i - 80\<bar> * real_of_int (snd (ratio_bounds ! i))" if "i \<le> 199" for i
  proof -
    have "\<bar>real i - 80\<bar> * (1000000 * peak_ratio i)
        \<le> \<bar>real i - 80\<bar> * real_of_int (snd (ratio_bounds ! i))"
      by (intro mult_left_mono peak_ratio_upper [OF that]) simp
    then show ?thesis by (simp add: abs_mult peak_ratio_nonneg mult.left_commute)
  qed
  from trap_upper [of 1 "\<lambda>i. \<bar>(real i - 80) * peak_ratio i\<bar>", OF this v]
  have "trap_sum 199 (\<lambda>i. \<bar>(real i - 80) * peak_ratio i\<bar>) \<le> 1650026020 / 2 / 1000000"
    by simp
  with trap_sum_abs [of 199 "\<lambda>i. (real i - 80) * peak_ratio i"] show ?thesis by linarith
qed

lemma sharp_mass_lower:
  "44510872018229146264213501693955 / 2 / 1000000 ^ 5 \<le> trap_sum 199 (\<lambda>i. peak_ratio i ^ 5)"
proof -
  have v: "trap_sum 199 (\<lambda>i. real_of_int (fst (ratio_bounds ! i)) ^ 5)
      = 44510872018229146264213501693955 / 2"
    using trap_moment [of "\<lambda>k b. fst b ^ 5"] by (simp add: moment_values)
  have "real_of_int (fst (ratio_bounds ! i)) ^ 5 \<le> 1000000 ^ 5 * peak_ratio i ^ 5"
    if "i \<le> 199" for i
  proof -
    have "real_of_int (fst (ratio_bounds ! i)) ^ 5 \<le> (1000000 * peak_ratio i) ^ 5"
      by (intro power_mono_odd peak_ratio_lower [OF that]) simp
    then show ?thesis by (simp only: power_mult_distrib)
  qed
  from trap_lower [of _ 5 "\<lambda>i. peak_ratio i ^ 5", OF this v] show ?thesis .
qed

lemma sharp_second_moment_upper:
  "trap_sum 199 (\<lambda>i. (real i - 80) ^ 2 * peak_ratio i ^ 5)
     \<le> 3632587976306644674261456932119090 / 2 / 1000000 ^ 5"
proof -
  have v: "trap_sum 199 (\<lambda>i. (real i - 80) ^ 2 * real_of_int (snd (ratio_bounds ! i)) ^ 5)
      = 3632587976306644674261456932119090 / 2"
    using trap_moment [of "\<lambda>k b. (k - 80) ^ 2 * snd b ^ 5"] by (simp add: moment_values)
  have "1000000 ^ 5 * ((real i - 80) ^ 2 * peak_ratio i ^ 5)
      \<le> (real i - 80) ^ 2 * real_of_int (snd (ratio_bounds ! i)) ^ 5" if "i \<le> 199" for i
  proof -
    have "(1000000 * peak_ratio i) ^ 5 \<le> real_of_int (snd (ratio_bounds ! i)) ^ 5"
      by (intro power_mono_odd peak_ratio_upper [OF that]) simp
    then have "(real i - 80) ^ 2 * (1000000 * peak_ratio i) ^ 5
        \<le> (real i - 80) ^ 2 * real_of_int (snd (ratio_bounds ! i)) ^ 5"
      by (intro mult_left_mono) simp_all
    then show ?thesis by (simp only: power_mult_distrib mult.left_commute)
  qed
  from trap_upper [of 5 "\<lambda>i. (real i - 80) ^ 2 * peak_ratio i ^ 5", OF this v] show ?thesis .
qed

lemma spread_comparison:
  "trap_sum 199 (\<lambda>i. (real i - 80) ^ 2 * peak_ratio i ^ 5) / trap_sum 199 (\<lambda>i. peak_ratio i ^ 5)
     - (trap_sum 199 (\<lambda>i. (real i - 80) * peak_ratio i ^ 5)
          / trap_sum 199 (\<lambda>i. peak_ratio i ^ 5)) ^ 2
   < trap_sum 199 (\<lambda>i. (real i - 80) ^ 2 * peak_ratio i) / trap_sum 199 peak_ratio
     - (trap_sum 199 (\<lambda>i. (real i - 80) * peak_ratio i) / trap_sum 199 peak_ratio) ^ 2"
proof -
  define A0 where "A0 = trap_sum 199 peak_ratio"
  define A1 where "A1 = trap_sum 199 (\<lambda>i. (real i - 80) * peak_ratio i)"
  define A2 where "A2 = trap_sum 199 (\<lambda>i. (real i - 80) ^ 2 * peak_ratio i)"
  define B0 where "B0 = trap_sum 199 (\<lambda>i. peak_ratio i ^ 5)"
  define B1 where "B1 = trap_sum 199 (\<lambda>i. (real i - 80) * peak_ratio i ^ 5)"
  define B2 where "B2 = trap_sum 199 (\<lambda>i. (real i - 80) ^ 2 * peak_ratio i ^ 5)"
  have A0: "100096175 / 2 / 1000000 \<le> A0" "A0 \<le> 100502170 / 2 / 1000000"
    using mass_lower mass_upper by (simp_all add: A0_def)
  have A2: "44068532403 / 2 / 1000000 \<le> A2"
    using second_moment_lower by (simp add: A2_def)
  have A1: "\<bar>A1\<bar> \<le> 1650026020 / 2 / 1000000"
    using first_moment_abs by (simp add: A1_def)
  have B0: "44510872018229146264213501693955 / 2 / 1000000 ^ 5 \<le> B0"
    using sharp_mass_lower by (simp add: B0_def)
  have B2: "B2 \<le> 3632587976306644674261456932119090 / 2 / 1000000 ^ 5"
    using sharp_second_moment_upper by (simp add: B2_def)
  have B2nn: "0 \<le> B2"
    unfolding B2_def by (rule trap_sum_nonneg) (simp add: peak_ratio_nonneg)
  have A0pos: "0 < A0" using A0(1) by simp
  have B0pos: "0 < B0" using B0 by simp
  have "B2 / B0 - (B1 / B0) ^ 2 \<le> B2 / B0" by simp
  also have "\<dots> \<le> (3632587976306644674261456932119090 / 2 / 1000000 ^ 5)
      / (44510872018229146264213501693955 / 2 / 1000000 ^ 5)"
    using B2 B0 by (intro frac_le) simp_all
  also have "\<dots> < (44068532403 / 2 / 1000000) / (100502170 / 2 / 1000000)
      - ((1650026020 / 2 / 1000000) / (100096175 / 2 / 1000000)) ^ 2"
    by (simp add: power2_eq_square)
  also have "\<dots> \<le> A2 / A0 - (A1 / A0) ^ 2"
  proof -
    have "(44068532403 / 2 / 1000000) / (100502170 / 2 / 1000000) \<le> A2 / A0"
      using A2 A0 A0pos by (intro frac_le) simp_all
    moreover have "(A1 / A0) ^ 2 \<le> ((1650026020 / 2 / 1000000) / (100096175 / 2 / 1000000)) ^ 2"
    proof -
      have "\<bar>A1\<bar> / A0 \<le> (1650026020 / 2 / 1000000) / (100096175 / 2 / 1000000)"
        using A1 A0 by (intro frac_le) simp_all
      then have "(\<bar>A1\<bar> / A0) ^ 2 \<le> ((1650026020 / 2 / 1000000) / (100096175 / 2 / 1000000)) ^ 2"
        using A0pos by (intro power_mono) simp_all
      moreover have "(\<bar>A1\<bar> / A0) ^ 2 = (A1 / A0) ^ 2"
        by (simp add: power_divide)
      ultimately show ?thesis by simp
    qed
    ultimately show ?thesis by linarith
  qed
  finally show ?thesis
    by (simp only: A0_def A1_def A2_def B0_def B1_def B2_def)
qed

section \<open>The posterior of the longer exposure is narrower\<close>

lemma poisson_first_case:
  "(20 / 199 * real i * 2) ^ 16 * exp (- (20 / 199 * real i * 2))
     = ((3200 / 199) ^ 16 * exp (- (3200 / 199))) * peak_ratio i"
proof -
  have e: "exp (- (20 / 199 * real i * 2))
      = exp (- (3200 / 199)) * exp (- (40 / 199) * (real i - 80))"
    by (simp add: exp_add [symmetric] field_simps)
  have p: "(20 / 199 * real i * 2) ^ 16 = (3200 / 199) ^ 16 * (real i / 80) ^ 16"
    by (simp only: power_mult_distrib [symmetric]) simp
  show ?thesis by (simp only: e p peak_ratio_def) (simp add: mult_ac)
qed

lemma poisson_third_case:
  "(20 / 199 * real i * 10) ^ 80 * exp (- (20 / 199 * real i * 10))
     = ((16000 / 199) ^ 80 * exp (- (16000 / 199))) * peak_ratio i ^ 5"
proof -
  have "exp (- (40 / 199) * (real i - 80)) ^ 5 = exp (real 5 * (- (40 / 199) * (real i - 80)))"
    by (simp only: exp_of_nat_mult)
  then have e5: "exp (- (40 / 199) * (real i - 80)) ^ 5 = exp (- (200 / 199) * (real i - 80))"
    by simp
  have e: "exp (- (20 / 199 * real i * 10))
      = exp (- (16000 / 199)) * exp (- (200 / 199) * (real i - 80))"
    by (simp add: exp_add [symmetric] field_simps)
  have "((real i / 80) ^ 16) ^ 5 = (real i / 80) ^ 80"
    by (simp only: power_mult [symmetric]) simp
  then have p5: "peak_ratio i ^ 5 = (real i / 80) ^ 80 * exp (- (200 / 199) * (real i - 80))"
    by (simp only: peak_ratio_def power_mult_distrib e5)
  have p: "(20 / 199 * real i * 10) ^ 80 = (16000 / 199) ^ 80 * (real i / 80) ^ 80"
    by (simp only: power_mult_distrib [symmetric]) simp
  show ?thesis by (simp only: e p p5) (simp add: mult_ac)
qed

lemma rate_grid_range:
  assumes "i < 200" and T: "T = 2 \<or> T = 10"
  shows "20 / 199 * real i * T = 0
         \<or> (20 / 199 * T \<le> 20 / 199 * real i * T \<and> 20 / 199 * real i * T \<le> 20 * T)"
proof (cases "i = 0")
  case True
  then show ?thesis by simp
next
  case False
  then have "1 \<le> real i" by simp
  moreover have "real i \<le> 199" using assms(1) by simp
  ultimately show ?thesis using T by auto
qed

lemma rate_grid_first_case:
  assumes "i < 200"
  shows "poisson_in_range 16 2 (20 / 199 * real i)"
    and "poisson_value 16 2 (20 / 199 * real i) = 0
         \<or> ((40 / 199) ^ 16 / 3 ^ 40 \<le> poisson_value 16 2 (20 / 199 * real i)
            \<and> poisson_value 16 2 (20 / 199 * real i) \<le> real 40 ^ 16)"
proof -
  have x: "20 / 199 * real i * 2 = 0
      \<or> (40 / 199 \<le> 20 / 199 * real i * 2 \<and> 20 / 199 * real i * 2 \<le> real 40)"
    using rate_grid_range [OF assms, of 2] by simp
  show "poisson_in_range 16 2 (20 / 199 * real i)"
    by (rule poisson_in_range_box(1) [OF _ x])
      (simp_all add: min_normal_def overflow_threshold_def power_divide)
  show "poisson_value 16 2 (20 / 199 * real i) = 0
         \<or> ((40 / 199) ^ 16 / 3 ^ 40 \<le> poisson_value 16 2 (20 / 199 * real i)
            \<and> poisson_value 16 2 (20 / 199 * real i) \<le> real 40 ^ 16)"
    by (rule poisson_in_range_box(2) [OF _ x])
      (simp_all add: min_normal_def overflow_threshold_def power_divide)
qed

lemma rate_grid_third_case:
  assumes "i < 200"
  shows "poisson_in_range 80 10 (20 / 199 * real i)"
    and "poisson_value 80 10 (20 / 199 * real i) = 0
         \<or> ((200 / 199) ^ 80 / 3 ^ 200 \<le> poisson_value 80 10 (20 / 199 * real i)
            \<and> poisson_value 80 10 (20 / 199 * real i) \<le> real 200 ^ 80)"
proof -
  have x: "20 / 199 * real i * 10 = 0
      \<or> (200 / 199 \<le> 20 / 199 * real i * 10 \<and> 20 / 199 * real i * 10 \<le> real 200)"
    using rate_grid_range [OF assms, of 10] by simp
  show "poisson_in_range 80 10 (20 / 199 * real i)"
    by (rule poisson_in_range_box(1) [OF _ x])
      (simp_all add: min_normal_def overflow_threshold_def power_divide)
  show "poisson_value 80 10 (20 / 199 * real i) = 0
         \<or> ((200 / 199) ^ 80 / 3 ^ 200 \<le> poisson_value 80 10 (20 / 199 * real i)
            \<and> poisson_value 80 10 (20 / 199 * real i) \<le> real 200 ^ 80)"
    by (rule poisson_in_range_box(2) [OF _ x])
      (simp_all add: min_normal_def overflow_threshold_def power_divide)
qed

lemma poisson_like_rate_grid:
  assumes "\<And>i. i < 200 \<Longrightarrow> poisson_in_range n T (20 / 199 * real i)"
  shows "poisson_like n T (map (\<lambda>i. 20 / 199 * real i) [0..<Suc (Suc 198)])
       = map Fin (map (\<lambda>i. poisson_value n T (20 / 199 * real i)) [0..<Suc (Suc 198)])"
proof -
  have "\<forall>r\<in>set (map (\<lambda>i. 20 / 199 * real i) [0..<Suc (Suc 198)]). poisson_in_range n T r"
    using assms by (auto simp del: upt_Suc)
  then have "poisson_like n T (map (\<lambda>i. 20 / 199 * real i) [0..<Suc (Suc 198)])
      = map Fin (map (poisson_value n T) (map (\<lambda>i. 20 / 199 * real i) [0..<Suc (Suc 198)]))"
    by (rule poisson_like_exact)
  then show ?thesis by (simp only: map_map o_def)
qed

lemma scaled_box:
  fixes v :: real
  assumes "v = 0 \<or> (a \<le> v \<and> v \<le> b)"
  shows "1 / 100000 * v = 0 \<or> (a / 100000 \<le> 1 / 100000 * v \<and> 1 / 100000 * v \<le> b / 100000)"
  using assms by auto

lemma first_case_bounds:
  fixes lo hi :: real
  assumes "lo = (40 / 199) ^ 16 / 3 ^ 40 / 100000" "hi = real 40 ^ 16 / 100000"
  shows "0 < lo" "lo \<le> hi" "min_normal \<le> lo" "2 * min_normal \<le> 20 / 199 * lo"
    "2 * (real (Suc (Suc 198)) * hi) < overflow_threshold"
    "2 * (20 / 199) * (real (Suc (Suc 198)) * hi) < overflow_threshold"
    "min_normal * (20 / 199 * (real (Suc (Suc 198)) * hi)) \<le> lo"
    "2 * hi < overflow_threshold * (20 / 199 * lo)"
  unfolding assms by (simp_all add: min_normal_def overflow_threshold_def power_divide)

lemma third_case_bounds:
  fixes lo hi :: real
  assumes "lo = (200 / 199) ^ 80 / 3 ^ 200 / 100000" "hi = real 200 ^ 80 / 100000"
  shows "0 < lo" "lo \<le> hi" "min_normal \<le> lo" "2 * min_normal \<le> 20 / 199 * lo"
    "2 * (real (Suc (Suc 198)) * hi) < overflow_threshold"
    "2 * (20 / 199) * (real (Suc (Suc 198)) * hi) < overflow_threshold"
    "min_normal * (20 / 199 * (real (Suc (Suc 198)) * hi)) \<le> lo"
    "2 * hi < overflow_threshold * (20 / 199 * lo)"
  unfolding assms by (simp_all add: min_normal_def overflow_threshold_def power_divide)

text \<open>
  C7.  With the flat prior over [0, 1e5] on the 200-point rate grid over [0, 20], the
  normalized posterior for \<open>(n, T) = (80, 10)\<close> has a strictly smaller variance than
  the normalized posterior for \<open>(n, T) = (16, 2)\<close>.
\<close>

theorem flat_posterior_narrower:
  "\<exists>p1 p3.
     post_pdf (linspace 0 20 200) (prior_pdf (linspace 0 20 200) 0 100000)
       (poisson_like 16 2 (linspace 0 20 200)) = Inr (map Fin p1)
   \<and> post_pdf (linspace 0 20 200) (prior_pdf (linspace 0 20 200) 0 100000)
       (poisson_like 80 10 (linspace 0 20 200)) = Inr (map Fin p3)
   \<and> pdf_var (linspace 0 20 200) p3 (linspace 0 20 200 ! 1 - linspace 0 20 200 ! 0)
       < pdf_var (linspace 0 20 200) p1 (linspace 0 20 200 ! 1 - linspace 0 20 200 ! 0)"
proof -
  let ?N = "Suc (Suc 198)"
  let ?rvals = "map (\<lambda>i. 20 / 199 * real i) [0..<?N]"
  let ?k1 = "(3200 / 199) ^ 16 * exp (- (3200 / 199)) :: real"
  let ?k3 = "(16000 / 199) ^ 80 * exp (- (16000 / 199)) :: real"
  define lo1 :: real where "lo1 = (40 / 199) ^ 16 / 3 ^ 40 / 100000"
  define hi1 :: real where "hi1 = real 40 ^ 16 / 100000"
  define lo3 :: real where "lo3 = (200 / 199) ^ 80 / 3 ^ 200 / 100000"
  define hi3 :: real where "hi3 = real 200 ^ 80 / 100000"
  note b1 = first_case_bounds [OF lo1_def hi1_def]
  note b3 = third_case_bounds [OF lo3_def hi3_def]
  have N: "Suc 198 = 199" by simp
  have grid: "linspace 0 20 200 = ?rvals"
    by (simp only: linspace_rate_grid N)
  have dr: "linspace 0 20 200 ! 1 - linspace 0 20 200 ! 0 = 20 / 199"
    using linspace_step [of 199 0 20] by simp
  have drn: "normal (20 / 199)" by (simp add: normal_range)
  have prior: "prior_pdf ?rvals 0 100000 = map Fin (map (\<lambda>i. 1 / 100000) [0..<?N])"
    by (simp add: prior_pdf_def fl_normal normal_range del: upt_Suc)
  have v1: "poisson_value 16 2 (20 / 199 * real i) = ?k1 * peak_ratio i" for i
    by (simp only: poisson_value_def poisson_first_case)
  have v3: "poisson_value 80 10 (20 / 199 * real i) = ?k3 * peak_ratio i ^ 5" for i
    by (simp only: poisson_value_def poisson_third_case)
  have like1: "poisson_like 16 2 ?rvals = map Fin (map (\<lambda>i. ?k1 * peak_ratio i) [0..<?N])"
    using poisson_like_rate_grid [of 16 2, OF rate_grid_first_case(1)] by (simp only: v1)
  have like3: "poisson_like 80 10 ?rvals = map Fin (map (\<lambda>i. ?k3 * peak_ratio i ^ 5) [0..<?N])"
    using poisson_like_rate_grid [of 80 10, OF rate_grid_third_case(1)] by (simp only: v3)
  have box1: "\<forall>i<?N. 1 / 100000 * (?k1 * peak_ratio i) = 0
      \<or> (lo1 \<le> 1 / 100000 * (?k1 * peak_ratio i) \<and> 1 / 100000 * (?k1 * peak_ratio i) \<le> hi1)"
  proof (intro allI impI)
    fix i assume "i < ?N"
    then have "i < 200" by simp
    from scaled_box [OF rate_grid_first_case(2) [OF this]]
    show "1 / 100000 * (?k1 * peak_ratio i) = 0
      \<or> (lo1 \<le> 1 / 100000 * (?k1 * peak_ratio i) \<and> 1 / 100000 * (?k1 * peak_ratio i) \<le> hi1)"
      unfolding v1 lo1_def hi1_def .
  qed
  have box3: "\<forall>i<?N. 1 / 100000 * (?k3 * peak_ratio i ^ 5) = 0
      \<or> (lo3 \<le> 1 / 100000 * (?k3 * peak_ratio i ^ 5)
          \<and> 1 / 100000 * (?k3 * peak_ratio i ^ 5) \<le> hi3)"
  proof (intro allI impI)
    fix i assume "i < ?N"
    then have "i < 200" by simp
    from scaled_box [OF rate_grid_third_case(2) [OF this]]
    show "1 / 100000 * (?k3 * peak_ratio i ^ 5) = 0
      \<or> (lo3 \<le> 1 / 100000 * (?k3 * peak_ratio i ^ 5)
          \<and> 1 / 100000 * (?k3 * peak_ratio i ^ 5) \<le> hi3)"
      unfolding v3 lo3_def hi3_def .
  qed
  have "0 < trap_sum 199 peak_ratio"
    using mass_lower by linarith
  then have m1: "0 < trap_sum (Suc 198) peak_ratio" by (simp only: N)
  have "(0::real) < 44510872018229146264213501693955 / 2 / 1000000 ^ 5" by simp
  then have "0 < trap_sum 199 (\<lambda>i. peak_ratio i ^ 5)"
    using sharp_mass_lower by linarith
  then have m3: "0 < trap_sum (Suc 198) (\<lambda>i. peak_ratio i ^ 5)" by (simp only: N)
  have "\<exists>p. post_pdf ?rvals (map Fin (map (\<lambda>i. 1 / 100000) [0..<?N]))
            (map Fin (map (\<lambda>i. ?k1 * peak_ratio i) [0..<?N])) = Inr (map Fin p)
        \<and> pdf_var ?rvals p (20 / 199)
            = (20 / 199) ^ 2 * (trap_sum (Suc 198) (\<lambda>i. (real i - 80) ^ 2 * peak_ratio i)
                  / trap_sum (Suc 198) peak_ratio
                - (trap_sum (Suc 198) (\<lambda>i. (real i - 80) * peak_ratio i)
                  / trap_sum (Suc 198) peak_ratio) ^ 2)"
    by (rule flat_posterior_var [OF _ _ _ m1 drn box1 b1]) simp_all
  then obtain p1 where p1:
      "post_pdf ?rvals (map Fin (map (\<lambda>i. 1 / 100000) [0..<?N]))
            (map Fin (map (\<lambda>i. ?k1 * peak_ratio i) [0..<?N])) = Inr (map Fin p1)"
      "pdf_var ?rvals p1 (20 / 199)
            = (20 / 199) ^ 2 * (trap_sum (Suc 198) (\<lambda>i. (real i - 80) ^ 2 * peak_ratio i)
                  / trap_sum (Suc 198) peak_ratio
                - (trap_sum (Suc 198) (\<lambda>i. (real i - 80) * peak_ratio i)
                  / trap_sum (Suc 198) peak_ratio) ^ 2)"
    by blast
  have "\<exists>p. post_pdf ?rvals (map Fin (map (\<lambda>i. 1 / 100000) [0..<?N]))
            (map Fin (map (\<lambda>i. ?k3 * peak_ratio i ^ 5) [0..<?N])) = Inr (map Fin p)
        \<and> pdf_var ?rvals p (20 / 199)
            = (20 / 199) ^ 2 * (trap_sum (Suc 198) (\<lambda>i. (real i - 80) ^ 2 * peak_ratio i ^ 5)
                  / trap_sum (Suc 198) (\<lambda>i. peak_ratio i ^ 5)
                - (trap_sum (Suc 198) (\<lambda>i. (real i - 80) * peak_ratio i ^ 5)
                  / trap_sum (Suc 198) (\<lambda>i. peak_ratio i ^ 5)) ^ 2)"
    by (rule flat_posterior_var [OF _ _ _ m3 drn box3 b3]) simp_all
  then obtain p3 where p3:
      "post_pdf ?rvals (map Fin (map (\<lambda>i. 1 / 100000) [0..<?N]))
            (map Fin (map (\<lambda>i. ?k3 * peak_ratio i ^ 5) [0..<?N])) = Inr (map Fin p3)"
      "pdf_var ?rvals p3 (20 / 199)
            = (20 / 199) ^ 2 * (trap_sum (Suc 198) (\<lambda>i. (real i - 80) ^ 2 * peak_ratio i ^ 5)
                  / trap_sum (Suc 198) (\<lambda>i. peak_ratio i ^ 5)
                - (trap_sum (Suc 198) (\<lambda>i. (real i - 80) * peak_ratio i ^ 5)
                  / trap_sum (Suc 198) (\<lambda>i. peak_ratio i ^ 5)) ^ 2)"
    by blast
  have post1: "post_pdf ?rvals (prior_pdf ?rvals 0 100000) (poisson_like 16 2 ?rvals)
      = Inr (map Fin p1)"
    by (simp only: prior like1 p1(1))
  have post3: "post_pdf ?rvals (prior_pdf ?rvals 0 100000) (poisson_like 80 10 ?rvals)
      = Inr (map Fin p3)"
    by (simp only: prior like3 p3(1))
  have sc: "trap_sum (Suc 198) (\<lambda>i. (real i - 80) ^ 2 * peak_ratio i ^ 5)
        / trap_sum (Suc 198) (\<lambda>i. peak_ratio i ^ 5)
      - (trap_sum (Suc 198) (\<lambda>i. (real i - 80) * peak_ratio i ^ 5)
        / trap_sum (Suc 198) (\<lambda>i. peak_ratio i ^ 5)) ^ 2
      < trap_sum (Suc 198) (\<lambda>i. (real i - 80) ^ 2 * peak_ratio i) / trap_sum (Suc 198) peak_ratio
      - (trap_sum (Suc 198) (\<lambda>i. (real i - 80) * peak_ratio i) / trap_sum (Suc 198) peak_ratio) ^ 2"
    using spread_comparison by (simp only: N)
  have "pdf_var ?rvals p3 (20 / 199) < pdf_var ?rvals p1 (20 / 199)"
    unfolding p1(2) p3(2) using sc by (intro mult_strict_left_mono) simp_all
  moreover have "?rvals ! 1 - ?rvals ! 0 = 20 / 199"
    using dr by (simp only: grid)
  ultimately show ?thesis
    using post1 post3 by (simp only: grid) blast
qed

end
